theory Spec2Isabelle
  imports Main "HOL-Library.AList"
begin

section \<open>The reactive store of src/store.ts\<close>

text \<open>
  The store wraps plain JavaScript objects and arrays in proxies. Everything the module
  does is a read or a write of the object graph, so the embedding is a heap of objects
  that is passed through every function and returned updated. A function that can throw
  returns \<open>(error + 'a) \<times> state\<close>: the state component is the heap as the exception
  leaves it, since what was written before a throw stays written.

  Scope of the object model. Objects carry own enumerable data properties only: accessor
  properties and per-property attributes are not represented, so the branches of the source
  that test \<open>desc.get\<close> are never taken, and \<open>Object.freeze\<close> is the one attribute kept (a
  flag on the object). A class instance has its own data properties and the members every
  object inherits from \<open>Object.prototype\<close>; the methods of its class are not represented.
\<close>

subsection \<open>Values and property keys\<close>

type_synonym addr = nat
type_synonym pid = nat

text \<open>A property key of user code: an array index or any other string.\<close>

datatype ukey = Idx nat | Name string

text \<open>The keys a trap can receive: the four module-private symbols or a user key.\<close>

datatype pkey = RAW | PROXY | TRACK | NODE | Key ukey

text \<open>
  \<open>Ref a\<close> is the object at address \<open>a\<close>, \<open>Prx p\<close> the proxy number \<open>p\<close>, \<open>Func n\<close> a
  function of user code, \<open>Builtin n\<close> the member named \<open>n\<close> that an object inherits from
  its prototype. Numbers are integers or \<open>NaN\<close>, which is kept because \<open>===\<close> is not
  reflexive on it.
\<close>

datatype val =
    Undefined | Null | NaN | Num int | Str string | Bool bool
  | Func nat | Builtin string | Ref addr | Prx pid

datatype error = TypeError | RangeError | Unmodelled

text \<open>The operator \<open>===\<close> and its negation \<open>!==\<close>.\<close>

definition strict_eq :: "val \<Rightarrow> val \<Rightarrow> bool" where
  "strict_eq v w = (v = w \<and> v \<noteq> NaN)"

definition is_function :: "val \<Rightarrow> bool" where
  "is_function v = (case v of Func _ \<Rightarrow> True | Builtin _ \<Rightarrow> True | _ \<Rightarrow> False)"

subsection \<open>Cells\<close>

text \<open>
  Modelled from the spec: \<open>createSignal\<close>, \<open>batch\<close> and \<open>CurrentReaction\<close> are imported
  from \<open>./core\<close>, which is not among the sources. The spec (section 6) gives their contract:
  reading a cell returns its payload and registers the active tracking context, if there is
  one, as a dependent; writing a cell stores the value (or the result of the updater) and,
  with \<open>equals: false\<close>, always notifies. A cell is its payload and its dependents; a
  notification is an entry of the log \<open>fired\<close> of the state.
\<close>

record cell =
  payload :: val
  observers :: "nat list"

definition createDataNode :: "val \<Rightarrow> cell" where
  "createDataNode v = \<lparr>payload = v, observers = []\<rparr>"

subsection \<open>Objects and the heap\<close>

datatype kind = PlainObject | NullProtoObject | ArrayObject | ClassInstance

text \<open>
  \<open>props\<close> are the own enumerable data properties in creation order, \<open>alen\<close> is the
  \<open>length\<close> of an array, \<open>proxy\<close> the hidden own property \<open>$PROXY\<close> and \<open>nodes\<close> the
  hidden own property \<open>$NODE\<close>, the registry of cells. Prototype objects are not objects of
  the heap; what the prototype chain of an object contributes to a lookup of \<open>$PROXY\<close> is
  kept with the object: \<open>proto_proxy\<close> is the view of the nearest wrapped object on the
  chain, if there is one. The objects that the module creates have the chain of a literal,
  with no wrapped object on it.
\<close>

record obj =
  kind :: kind
  props :: "(ukey \<times> val) list"
  alen :: nat
  frozen :: bool
  proxy :: "pid option"
  proto_proxy :: "pid option"
  nodes :: "(ukey \<rightharpoonup> cell) option"

record state =
  heap :: "addr \<Rightarrow> obj"
  next_addr :: addr
  proxies :: "pid \<Rightarrow> addr"
  next_pid :: pid
  Writing :: bool
  CurrentReaction :: "nat option"
  fired :: "(addr \<times> ukey) list"

definition empty_obj :: "kind \<Rightarrow> obj" where
  "empty_obj k = \<lparr>kind = k, props = [], alen = 0, frozen = False, proxy = None,
     proto_proxy = None, nodes = None\<rparr>"

text \<open>\<open>value[$PROXY]\<close>: the own property, else the inherited one.\<close>

definition lookup_proxy :: "obj \<Rightarrow> pid option" where
  "lookup_proxy ob = (case proxy ob of Some p \<Rightarrow> Some p | None \<Rightarrow> proto_proxy ob)"

definition upd_obj :: "addr \<Rightarrow> (obj \<Rightarrow> obj) \<Rightarrow> state \<Rightarrow> state" where
  "upd_obj a f s = s\<lparr>heap := (heap s)(a := f (heap s a))\<rparr>"

definition alloc :: "obj \<Rightarrow> state \<Rightarrow> addr \<times> state" where
  "alloc ob s = (next_addr s, s\<lparr>heap := (heap s)(next_addr s := ob), next_addr := Suc (next_addr s)\<rparr>)"

subsection \<open>Inherited members\<close>

text \<open>The names every ordinary object inherits from \<open>Object.prototype\<close>.\<close>

definition object_prototype_names :: "string list" where
  "object_prototype_names =
     [''constructor'', ''hasOwnProperty'', ''isPrototypeOf'', ''propertyIsEnumerable'',
      ''toLocaleString'', ''toString'', ''valueOf'', ''__proto__'',
      ''__defineGetter__'', ''__defineSetter__'', ''__lookupGetter__'', ''__lookupSetter__'']"

text \<open>The methods an array inherits from \<open>Array.prototype\<close>.\<close>

definition array_prototype_names :: "string list" where
  "array_prototype_names =
     [''at'', ''concat'', ''copyWithin'', ''entries'', ''every'', ''fill'', ''filter'', ''find'',
      ''findIndex'', ''findLast'', ''findLastIndex'', ''flat'', ''flatMap'', ''forEach'',
      ''includes'', ''indexOf'', ''join'', ''keys'', ''lastIndexOf'', ''map'', ''pop'', ''push'',
      ''reduce'', ''reduceRight'', ''reverse'', ''shift'', ''slice'', ''some'', ''sort'',
      ''splice'', ''toReversed'', ''toSorted'', ''toSpliced'', ''unshift'', ''values'', ''with'']"

definition inherited_names :: "kind \<Rightarrow> string list" where
  "inherited_names k = (case k of
       NullProtoObject \<Rightarrow> []
     | ArrayObject \<Rightarrow> array_prototype_names @ object_prototype_names
     | _ \<Rightarrow> object_prototype_names)"

subsection \<open>Reading and writing an object directly\<close>

definition is_array :: "state \<Rightarrow> addr \<Rightarrow> bool" where
  "is_array s a = (kind (heap s a) = ArrayObject)"

text \<open>\<open>target.hasOwnProperty(k)\<close> as the built-in computes it.\<close>

definition has_own :: "state \<Rightarrow> addr \<Rightarrow> ukey \<Rightarrow> bool" where
  "has_own s a k =
     (map_of (props (heap s a)) k \<noteq> None \<or> (is_array s a \<and> k = Name ''length''))"

text \<open>\<open>state[property]\<close>: the own property, else the inherited member, else \<open>undefined\<close>.\<close>

definition raw_get :: "state \<Rightarrow> addr \<Rightarrow> ukey \<Rightarrow> val" where
  "raw_get s a k =
     (if is_array s a \<and> k = Name ''length'' then Num (int (alen (heap s a)))
      else case map_of (props (heap s a)) k of
          Some v \<Rightarrow> v
        | None \<Rightarrow> (case k of
              Name n \<Rightarrow> if n \<in> set (inherited_names (kind (heap s a))) then Builtin n else Undefined
            | Idx _ \<Rightarrow> Undefined))"

text \<open>
  \<open>state[property] = value\<close> in strict mode. A frozen object throws. On an array, an index
  at or beyond the length extends it, and an assignment to \<open>length\<close> truncates; a length
  that is not a number is outside the model, one out of range throws. The array indices
  are the numbers below \<open>max_index\<close>; a larger number is a key like any name.
\<close>

definition max_index :: nat where
  "max_index = 4294967295"

definition keep_below :: "nat \<Rightarrow> (ukey \<times> val) list \<Rightarrow> (ukey \<times> val) list" where
  "keep_below n ps =
     filter (\<lambda>(k, v). case k of Idx i \<Rightarrow> i < n \<or> max_index \<le> i | Name _ \<Rightarrow> True) ps"

definition raw_set :: "addr \<Rightarrow> ukey \<Rightarrow> val \<Rightarrow> state \<Rightarrow> (error + unit) \<times> state" where
  "raw_set a k v s =
     (if frozen (heap s a) then (Inl TypeError, s)
      else if is_array s a \<and> k = Name ''length'' then
        (case v of
            Num n \<Rightarrow>
              if 0 \<le> n \<and> n \<le> int max_index
              then (Inr (), upd_obj a (\<lambda>ob. ob\<lparr>props := keep_below (nat n) (props ob), alen := nat n\<rparr>) s)
              else (Inl RangeError, s)
          | NaN \<Rightarrow> (Inl RangeError, s)
          | Undefined \<Rightarrow> (Inl RangeError, s)
          | _ \<Rightarrow> (Inl Unmodelled, s))
      else (Inr (), upd_obj a (\<lambda>ob. ob\<lparr>props := AList.update k v (props ob),
              alen := (case k of
                  Idx i \<Rightarrow> if kind ob = ArrayObject \<and> i < max_index \<and> alen ob \<le> i then Suc i else alen ob
                | Name _ \<Rightarrow> alen ob)\<rparr>) s))"

text \<open>
  \<open>delete state[property]\<close> in strict mode: removing an own property of a frozen object,
  or the \<open>length\<close> of an array, throws; a property that is not there is no error.
\<close>

definition raw_delete :: "addr \<Rightarrow> ukey \<Rightarrow> state \<Rightarrow> (error + unit) \<times> state" where
  "raw_delete a k s =
     (if is_array s a \<and> k = Name ''length'' then (Inl TypeError, s)
      else if map_of (props (heap s a)) k = None then (Inr (), s)
      else if frozen (heap s a) then (Inl TypeError, s)
      else (Inr (), upd_obj a (\<lambda>ob. ob\<lparr>props := AList.delete k (props ob)\<rparr>) s))"

subsection \<open>The cell registry\<close>

text \<open>The registry is created by the literal \<open>{}\<close>, so it inherits from \<open>Object.prototype\<close>.\<close>

definition inherited_by_registry :: "ukey \<Rightarrow> bool" where
  "inherited_by_registry k =
     (case k of Name n \<Rightarrow> n \<in> set object_prototype_names | Idx _ \<Rightarrow> False)"

definition cells :: "state \<Rightarrow> addr \<Rightarrow> (ukey \<rightharpoonup> cell)" where
  "cells s a = (case nodes (heap s a) of None \<Rightarrow> Map.empty | Some m \<Rightarrow> m)"

text \<open>\<open>nodes[k] = c\<close> on the registry of \<open>a\<close>; without a registry there is nothing to store in.\<close>

definition set_cell :: "addr \<Rightarrow> ukey \<Rightarrow> cell \<Rightarrow> state \<Rightarrow> state" where
  "set_cell a k c s = upd_obj a (\<lambda>ob. ob\<lparr>nodes := map_option (\<lambda>m. m(k \<mapsto> c)) (nodes ob)\<rparr>) s"

text \<open>
  \<open>getDataNodes(target)\<close>: \<open>Object.defineProperty\<close> cannot add \<open>$NODE\<close> to a frozen
  object.
\<close>

definition getDataNodes :: "addr \<Rightarrow> state \<Rightarrow> (error + unit) \<times> state" where
  "getDataNodes target s =
     (case nodes (heap s target) of
         Some m \<Rightarrow> (Inr (), s)
       | None \<Rightarrow>
           if frozen (heap s target) then (Inl TypeError, s)
           else (Inr (), upd_obj target (\<lambda>ob. ob\<lparr>nodes := Some Map.empty\<rparr>) s))"

text \<open>
  What \<open>nodes[property] || (nodes[property] = createDataNode(value))\<close> yields: the cell of
  the registry, created if there is none, or the member that the registry inherits under
  that name, which is truthy and no cell.
\<close>

datatype node = CellNode ukey | InheritedNode string

definition getDataNode :: "addr \<Rightarrow> ukey \<Rightarrow> val \<Rightarrow> state \<Rightarrow> node \<times> state" where
  "getDataNode target property v s =
     (case cells s target property of
         Some c \<Rightarrow> (CellNode property, s)
       | None \<Rightarrow> (case property of
             Name n \<Rightarrow>
               if inherited_by_registry property then (InheritedNode n, s)
               else (CellNode property, set_cell target property (createDataNode v) s)
           | Idx _ \<Rightarrow> (CellNode property, set_cell target property (createDataNode v) s)))"

text \<open>\<open>node()\<close>: the payload; the active tracking context becomes a dependent.\<close>

definition read_cell :: "addr \<Rightarrow> ukey \<Rightarrow> state \<Rightarrow> val \<times> state" where
  "read_cell target k s =
     (case cells s target k of
         None \<Rightarrow> (Undefined, s)
       | Some c \<Rightarrow> (payload c,
           case CurrentReaction s of
               None \<Rightarrow> s
             | Some r \<Rightarrow> set_cell target k (c\<lparr>observers := observers c @ [r]\<rparr>) s))"

text \<open>\<open>node.$(v)\<close>, and \<open>node.$(() => v)\<close> whose updater yields \<open>v\<close>: store and notify.\<close>

definition fire_cell :: "addr \<Rightarrow> ukey \<Rightarrow> val \<Rightarrow> state \<Rightarrow> state" where
  "fire_cell target k v s =
     (case cells s target k of
         None \<Rightarrow> s
       | Some c \<Rightarrow> (set_cell target k (c\<lparr>payload := v\<rparr>) s)\<lparr>fired := fired s @ [(target, k)]\<rparr>)"

text \<open>The key of the cell for the whole object, \<open>nodes._\<close>, and the key \<open>length\<close>.\<close>

abbreviation self_key :: ukey where
  "self_key \<equiv> Name ''_''"

abbreviation length_key :: ukey where
  "length_key \<equiv> Name ''length''"

definition trackSelf :: "addr \<Rightarrow> state \<Rightarrow> (error + unit) \<times> state" where
  "trackSelf target s =
     (case CurrentReaction s of
         None \<Rightarrow> (Inr (), s)
       | Some r \<Rightarrow> (case getDataNodes target s of
             (Inl e, s1) \<Rightarrow> (Inl e, s1)
           | (Inr u, s1) \<Rightarrow>
               let s2 = (case cells s1 target self_key of
                            Some c \<Rightarrow> s1
                          | None \<Rightarrow> set_cell target self_key (createDataNode Undefined) s1)
               in (Inr (), snd (read_cell target self_key s2))))"

subsection \<open>Wrapping\<close>

text \<open>
  \<open>wrap(value)\<close>. An object gets one proxy, stored under \<open>$PROXY\<close>; the proxy is created
  before \<open>Object.defineProperty\<close> runs, which throws on a frozen object. The test
  \<open>value[$PROXY]\<close> also finds an inherited \<open>$PROXY\<close>, which is then returned. Read on a
  proxy, \<open>$PROXY\<close> is the proxy itself. The loop over the keys rebinds accessors only, and
  there are none. A function can be a target in the source; the model has no function
  objects.
\<close>

definition wrap :: "val \<Rightarrow> state \<Rightarrow> (error + val) \<times> state" where
  "wrap v s =
     (case v of
         Prx p \<Rightarrow> (Inr (Prx p), s)
       | Ref a \<Rightarrow> (case lookup_proxy (heap s a) of
             Some p \<Rightarrow> (Inr (Prx p), s)
           | None \<Rightarrow>
               let p = next_pid s;
                   s1 = s\<lparr>proxies := (proxies s)(p := a), next_pid := Suc p\<rparr>
               in if frozen (heap s a) then (Inl TypeError, s1)
                  else (Inr (Prx p), upd_obj a (\<lambda>ob. ob\<lparr>proxy := Some p\<rparr>) s1))
       | Func _ \<Rightarrow> (Inl Unmodelled, s)
       | Builtin _ \<Rightarrow> (Inl Unmodelled, s)
       | _ \<Rightarrow> (Inl TypeError, s))"

definition isWrappable :: "state \<Rightarrow> val \<Rightarrow> bool" where
  "isWrappable s v =
     (case v of
         Prx p \<Rightarrow> True
       | Ref a \<Rightarrow> lookup_proxy (heap s a) \<noteq> None \<or> kind (heap s a) \<noteq> ClassInstance
       | _ \<Rightarrow> False)"

subsection \<open>Unwrapping\<close>

text \<open>
  \<open>Object.keys\<close>: the array indices in ascending order, then the other keys in creation
  order.
\<close>

definition own_keys :: "(ukey \<times> val) list \<Rightarrow> ukey list" where
  "own_keys ps =
     map Idx (sort (concat (map (\<lambda>(k, v). case k of
         Idx i \<Rightarrow> if i < max_index then [i] else [] | Name _ \<Rightarrow> []) ps)))
     @ concat (map (\<lambda>(k, v). case k of
         Idx i \<Rightarrow> if i < max_index then [] else [Idx i] | Name n \<Rightarrow> [Name n]) ps)"

text \<open>\<open>item.slice(0)\<close>: a new array with the elements; \<open>Object.assign({}, item)\<close>: a new plain
  object with the own enumerable properties. Neither copies \<open>$PROXY\<close> or \<open>$NODE\<close>.\<close>

definition slice_copy :: "obj \<Rightarrow> obj" where
  "slice_copy ob = (empty_obj ArrayObject)
     \<lparr>props := map (\<lambda>k. (k, the (map_of (props ob) k)))
                 (filter (\<lambda>k. case k of Idx i \<Rightarrow> i < alen ob | Name _ \<Rightarrow> False) (own_keys (props ob))),
      alen := alen ob\<rparr>"

definition assign_copy :: "obj \<Rightarrow> obj" where
  "assign_copy ob = (empty_obj PlainObject)
     \<lparr>props := map (\<lambda>k. (k, the (map_of (props ob) k))) (own_keys (props ob))\<rparr>"

text \<open>
  \<open>unwrap(item, set)\<close>. The recursion follows the object graph and the source gives no
  bound for it (a frozen object is copied and never entered in \<open>set\<close>), so the function
  takes fuel: \<open>None\<close> is a recursion deeper than the fuel, and a call that is \<open>None\<close> for
  every fuel is one that never returns. \<open>unwrap_props\<close> is the body of either loop, over
  the indices below the length or over \<open>Object.keys(item)\<close>; there \<open>item\<close> is not frozen,
  so the assignment cannot throw.
\<close>

fun unwrap :: "nat \<Rightarrow> val \<Rightarrow> addr list \<Rightarrow> state \<Rightarrow> (val \<times> addr list \<times> state) option"
  and unwrap_props :: "nat \<Rightarrow> addr \<Rightarrow> ukey list \<Rightarrow> addr list \<Rightarrow> state \<Rightarrow> (addr list \<times> state) option"
where
  "unwrap 0 item vis s = None"
| "unwrap (Suc n) item vis s =
     (case item of
         Prx p \<Rightarrow> Some (Ref (proxies s p), vis, s)
       | Ref a \<Rightarrow>
           if \<not> isWrappable s item \<or> a \<in> set vis then Some (item, vis, s)
           else if is_array s a then
             (let (b, vis1, s1) =
                    (if frozen (heap s a)
                     then (let (c, s') = alloc (slice_copy (heap s a)) s in (c, vis, s'))
                     else (a, a # vis, s))
              in case unwrap_props n b (map Idx [0..<alen (heap s1 b)]) vis1 s1 of
                    None \<Rightarrow> None
                  | Some (vis2, s2) \<Rightarrow> Some (Ref b, vis2, s2))
           else
             (let (b, vis1, s1) =
                    (if frozen (heap s a)
                     then (let (c, s') = alloc (assign_copy (heap s a)) s in (c, vis, s'))
                     else (a, a # vis, s))
              in case unwrap_props n b (own_keys (props (heap s1 b))) vis1 s1 of
                    None \<Rightarrow> None
                  | Some (vis2, s2) \<Rightarrow> Some (Ref b, vis2, s2))
       | _ \<Rightarrow> Some (item, vis, s))"
| "unwrap_props n b [] vis s = Some (vis, s)"
| "unwrap_props n b (k # ks) vis s =
     (let v = raw_get s b k
      in case unwrap n v vis s of
            None \<Rightarrow> None
          | Some (unwrapped, vis1, s1) \<Rightarrow>
              unwrap_props n b ks vis1
                (if \<not> strict_eq unwrapped v then snd (raw_set b k unwrapped s1) else s1))"

subsection \<open>Sequencing\<close>

text \<open>A statement after another one: the second runs unless the first has thrown.\<close>

definition andThen ::
  "(error + 'a) \<times> state \<Rightarrow> ('a \<Rightarrow> state \<Rightarrow> (error + 'b) \<times> state) \<Rightarrow> (error + 'b) \<times> state" where
  "andThen m f = (case m of (Inl e, s) \<Rightarrow> (Inl e, s) | (Inr x, s) \<Rightarrow> f x s)"

subsection \<open>The mutation gate\<close>

text \<open>
  \<open>node.$(...)\<close> on what \<open>getDataNode\<close> returned: when the registry inherits a member
  under the name of the property, that member is returned and \<open>node.$\<close> is not a function.
\<close>

definition fire_node :: "addr \<Rightarrow> node \<Rightarrow> val \<Rightarrow> state \<Rightarrow> (error + unit) \<times> state" where
  "fire_node target nd v s =
     (case nd of
         CellNode k \<Rightarrow> (Inr (), fire_cell target k v s)
       | InheritedNode n \<Rightarrow> (Inl TypeError, s))"

text \<open>The line for the \<open>length\<close> cell, with \<open>len\<close> the length read before the mutation.\<close>

definition fire_length :: "addr \<Rightarrow> val \<Rightarrow> state \<Rightarrow> (error + unit) \<times> state" where
  "fire_length st len s =
     (if is_array s st \<and> \<not> strict_eq (raw_get s st length_key) len
      then (case getDataNode st length_key len s of
              (nd, s') \<Rightarrow> fire_node st nd (raw_get s st length_key) s')
      else (Inr (), s))"

text \<open>The last line: \<open>(node = nodes._) && node.$()\<close>.\<close>

definition fire_self :: "addr \<Rightarrow> state \<Rightarrow> state" where
  "fire_self st s =
     (case cells s st self_key of
         Some c \<Rightarrow> fire_cell st self_key Undefined s
       | None \<Rightarrow> s)"

text \<open>
  \<open>setProperty(state, property, value, deleting)\<close>. The key \<open>__proto__\<close> reads and
  writes the prototype, which the model does not have.
\<close>

definition setProperty :: "addr \<Rightarrow> ukey \<Rightarrow> val \<Rightarrow> bool \<Rightarrow> state \<Rightarrow> (error + unit) \<times> state" where
  "setProperty st property v deleting s =
     (if \<not> deleting \<and> strict_eq (raw_get s st property) v then (Inr (), s)
      else if property = Name ''__proto__'' then (Inl Unmodelled, s)
      else
        let prev = raw_get s st property;
            len = raw_get s st length_key
        in andThen (if deleting then raw_delete st property s else raw_set st property v s) (\<lambda>u s1.
           andThen (getDataNodes st s1) (\<lambda>u s2.
           andThen (case getDataNode st property prev s2 of (nd, s3) \<Rightarrow> fire_node st nd v s3) (\<lambda>u s4.
           andThen (fire_length st len s4) (\<lambda>u s5.
           (Inr (), fire_self st s5))))))"

subsection \<open>The traps\<close>

text \<open>
  \<open>target.hasOwnProperty(property)\<close> as the \<open>get\<close> trap calls it: the method is looked up
  on the target, which may have no prototype or a property of that name.
\<close>

definition call_hasOwnProperty :: "state \<Rightarrow> addr \<Rightarrow> ukey \<Rightarrow> error + bool" where
  "call_hasOwnProperty s target k =
     (case raw_get s target (Name ''hasOwnProperty'') of
         Builtin n \<Rightarrow> Inr (has_own s target k)
       | Func f \<Rightarrow> Inl Unmodelled
       | _ \<Rightarrow> Inl TypeError)"

text \<open>
  The steps of the \<open>get\<close> trap for a user key. \<open>read_value\<close> is
  \<open>tracked ? nodes[property]() : target[property]\<close> together with \<open>tracked\<close>;
  \<open>should_track\<close> is the test that guards the creation of a cell; \<open>track_read\<close> is
  \<open>getDataNode(nodes, property, value)()\<close>, which runs a built-in when the registry inherits
  a member of that name; \<open>wrap_result\<close> is the last line.
\<close>

definition read_value :: "addr \<Rightarrow> ukey \<Rightarrow> state \<Rightarrow> bool \<times> val \<times> state" where
  "read_value target k s =
     (if cells s target k \<noteq> None
      then (case read_cell target k s of (v, s') \<Rightarrow> (True, v, s'))
      else (False, raw_get s target k, s))"

definition should_track :: "bool \<Rightarrow> val \<Rightarrow> addr \<Rightarrow> ukey \<Rightarrow> state \<Rightarrow> error + bool" where
  "should_track tracked v target k s =
     (if tracked \<or> CurrentReaction s = None then Inr False
      else if \<not> is_function v then Inr True
      else call_hasOwnProperty s target k)"

definition track_read :: "addr \<Rightarrow> ukey \<Rightarrow> val \<Rightarrow> state \<Rightarrow> (error + val) \<times> state" where
  "track_read target k v s =
     (case getDataNode target k v s of
         (CellNode c, s') \<Rightarrow> (case read_cell target c s' of (w, s'') \<Rightarrow> (Inr w, s''))
       | (InheritedNode n, s') \<Rightarrow> (Inl Unmodelled, s'))"

definition wrap_result :: "val \<Rightarrow> state \<Rightarrow> (error + val) \<times> state" where
  "wrap_result w s = (if isWrappable s w then wrap w s else (Inr w, s))"

text \<open>
  \<open>proxyTraps.get(target, property, receiver)\<close>. Reading \<open>$NODE\<close> or \<open>__proto__\<close> returns
  the registry or the prototype, which are no values of the model: they are \<open>Unmodelled\<close>.
\<close>

definition proxy_get :: "addr \<Rightarrow> pkey \<Rightarrow> val \<Rightarrow> state \<Rightarrow> (error + val) \<times> state" where
  "proxy_get target property receiver s =
     (case property of
         RAW \<Rightarrow> (Inr (Ref target), s)
       | PROXY \<Rightarrow> (Inr receiver, s)
       | TRACK \<Rightarrow> andThen (trackSelf target s) (\<lambda>u s1. (Inr receiver, s1))
       | NODE \<Rightarrow> andThen (getDataNodes target s) (\<lambda>u s1. (Inl Unmodelled, s1))
       | Key k \<Rightarrow>
           andThen (getDataNodes target s) (\<lambda>u s1.
           case read_value target k s1 of (tracked, v, s2) \<Rightarrow>
             if k = Name ''__proto__'' then (Inl Unmodelled, s2)
             else
               andThen (should_track tracked v target k s2, s2) (\<lambda>track s3.
               andThen (if track then track_read target k v s3 else (Inr v, s3)) wrap_result)))"

text \<open>\<open>property in target\<close>.\<close>

definition in_target :: "state \<Rightarrow> addr \<Rightarrow> ukey \<Rightarrow> bool" where
  "in_target s a k =
     (has_own s a k \<or> (case k of Name n \<Rightarrow> n \<in> set (inherited_names (kind (heap s a))) | Idx _ \<Rightarrow> False))"

definition proxy_has :: "addr \<Rightarrow> pkey \<Rightarrow> state \<Rightarrow> (error + bool) \<times> state" where
  "proxy_has target property s =
     (case property of
         Key k \<Rightarrow>
           if k = Name ''__proto__'' then (Inr True, s)
           else andThen (proxy_get target property (Ref target) s) (\<lambda>v s1. (Inr (in_target s1 target k), s1))
       | _ \<Rightarrow> (Inr True, s))"

text \<open>
  \<open>proxyTraps.set\<close> and \<open>proxyTraps.deleteProperty\<close>. With the gate closed, \<open>&&\<close> does not
  evaluate its right operand. The four symbols are private to the module and never reach
  \<open>setProperty\<close> from user code; with the gate open they are \<open>Unmodelled\<close>. The result is
  \<open>None\<close> when \<open>unwrap\<close> does not return within the fuel.
\<close>

definition proxy_set :: "nat \<Rightarrow> addr \<Rightarrow> pkey \<Rightarrow> val \<Rightarrow> state \<Rightarrow> ((error + bool) \<times> state) option" where
  "proxy_set fuel target property v s =
     (if \<not> Writing s then Some (Inr True, s)
      else case property of
          Key k \<Rightarrow> (case unwrap fuel v [] s of
              None \<Rightarrow> None
            | Some (u, vis, s1) \<Rightarrow>
                Some (andThen (setProperty target k u False s1) (\<lambda>x s2. (Inr True, s2))))
        | _ \<Rightarrow> Some (Inl Unmodelled, s))"

definition proxy_deleteProperty :: "addr \<Rightarrow> pkey \<Rightarrow> state \<Rightarrow> (error + bool) \<times> state" where
  "proxy_deleteProperty target property s =
     (if \<not> Writing s then (Inr True, s)
      else case property of
          Key k \<Rightarrow> andThen (setProperty target k Undefined True s) (\<lambda>x s1. (Inr True, s1))
        | _ \<Rightarrow> (Inl Unmodelled, s))"

text \<open>
  What the engine does with the answer of a trap. A proxy may not report, for an own
  property of its target that is neither configurable nor writable, a value other than the
  target's, nor accept the assignment of another value to it, nor report as deleted an own
  property that is not configurable: the operation on the view then throws \<open>TypeError\<close>.
  Not configurable are the \<open>length\<close> of an array, the hidden \<open>$PROXY\<close> and \<open>$NODE\<close>
  (defined with the default attributes) and every own property of a frozen object; all of
  them but the \<open>length\<close> of an array that is not frozen are not writable either. The
  registry is no value of the model, so no value is the same as \<open>$NODE\<close>.
\<close>

definition rejects_value :: "state \<Rightarrow> addr \<Rightarrow> pkey \<Rightarrow> val \<Rightarrow> bool" where
  "rejects_value s target property v =
     (case property of
         Key k \<Rightarrow>
           frozen (heap s target) \<and>
           (if is_array s target \<and> k = length_key then v \<noteq> Num (int (alen (heap s target)))
            else case map_of (props (heap s target)) k of Some w \<Rightarrow> v \<noteq> w | None \<Rightarrow> False)
       | PROXY \<Rightarrow> (case proxy (heap s target) of Some p \<Rightarrow> v \<noteq> Prx p | None \<Rightarrow> False)
       | NODE \<Rightarrow> nodes (heap s target) \<noteq> None
       | _ \<Rightarrow> False)"

definition rejects_delete :: "state \<Rightarrow> addr \<Rightarrow> pkey \<Rightarrow> bool" where
  "rejects_delete s target property =
     (case property of
         Key k \<Rightarrow>
           (is_array s target \<and> k = length_key)
           \<or> (frozen (heap s target) \<and> map_of (props (heap s target)) k \<noteq> None)
       | PROXY \<Rightarrow> proxy (heap s target) \<noteq> None
       | NODE \<Rightarrow> nodes (heap s target) \<noteq> None
       | _ \<Rightarrow> False)"

text \<open>
  The operations on a view: \<open>view[property]\<close>, \<open>view[property] = v\<close> and
  \<open>delete view[property]\<close> in strict mode. Each runs the trap and then the engine's check
  of the answer against the target.
\<close>

definition view_get :: "addr \<Rightarrow> pkey \<Rightarrow> val \<Rightarrow> state \<Rightarrow> (error + val) \<times> state" where
  "view_get target property receiver s =
     andThen (proxy_get target property receiver s) (\<lambda>v s1.
       if rejects_value s1 target property v then (Inl TypeError, s1) else (Inr v, s1))"

definition view_set :: "nat \<Rightarrow> addr \<Rightarrow> pkey \<Rightarrow> val \<Rightarrow> state \<Rightarrow> ((error + bool) \<times> state) option" where
  "view_set fuel target property v s =
     map_option (\<lambda>m. andThen m (\<lambda>b s1.
         if rejects_value s1 target property v then (Inl TypeError, s1) else (Inr b, s1)))
       (proxy_set fuel target property v s)"

definition view_delete :: "addr \<Rightarrow> pkey \<Rightarrow> state \<Rightarrow> (error + bool) \<times> state" where
  "view_delete target property s =
     andThen (proxy_deleteProperty target property s) (\<lambda>b s1.
       if rejects_delete s1 target property then (Inl TypeError, s1) else (Inr b, s1))"

subsection \<open>Creating a store\<close>

text \<open>
  \<open>createStore(store)\<close> returns the view; the mutator is \<open>setStore\<close>, which takes the view
  and the callback. A callback is any function of the view on the state that may throw or
  not return. \<open>batch\<close> only delays the dependents, which are outside the model, and
  \<open>finally\<close> closes the gate whether the callback throws or not.
\<close>

definition createStore :: "nat \<Rightarrow> val \<Rightarrow> state \<Rightarrow> ((error + val) \<times> state) option" where
  "createStore fuel store s =
     (case unwrap fuel store [] s of
         None \<Rightarrow> None
       | Some (unwrappedStore, vis, s1) \<Rightarrow> Some (wrap unwrappedStore s1))"

definition setStore ::
  "val \<Rightarrow> (val \<Rightarrow> state \<Rightarrow> ((error + unit) \<times> state) option) \<Rightarrow> state \<Rightarrow> ((error + unit) \<times> state) option" where
  "setStore wrappedStore fn s =
     (case fn wrappedStore (s\<lparr>Writing := True\<rparr>) of
         None \<Rightarrow> None
       | Some (r, s1) \<Rightarrow> Some (r, s1\<lparr>Writing := False\<rparr>))"

text \<open>\<open>ownKeys(target)\<close>; \<open>Reflect.ownKeys\<close> lists the hidden properties too.\<close>

definition reflect_ownKeys :: "obj \<Rightarrow> pkey list" where
  "reflect_ownKeys ob =
     map Key (filter (\<lambda>k. case k of Idx i \<Rightarrow> i < max_index | Name _ \<Rightarrow> False) (own_keys (props ob)))
     @ (if kind ob = ArrayObject then [Key length_key] else [])
     @ map Key (filter (\<lambda>k. case k of Idx i \<Rightarrow> max_index \<le> i | Name _ \<Rightarrow> True) (own_keys (props ob)))
     @ (if proxy ob = None then [] else [PROXY])
     @ (if nodes ob = None then [] else [NODE])"

definition ownKeys :: "addr \<Rightarrow> state \<Rightarrow> (error + pkey list) \<times> state" where
  "ownKeys target s =
     andThen (trackSelf target s) (\<lambda>u s1. (Inr (reflect_ownKeys (heap s1 target)), s1))"

subsection \<open>Callers\<close>

text \<open>
  What the callback of a mutator does to views: it assigns, deletes and reads properties.
  A callback is run as a list of such actions and stops at the first one that throws.
\<close>

datatype action = SetProp pid pkey val | DeleteProp pid pkey | GetProp pid pkey

definition perform :: "nat \<Rightarrow> action \<Rightarrow> state \<Rightarrow> ((error + unit) \<times> state) option" where
  "perform fuel act s =
     (case act of
         SetProp p k v \<Rightarrow> map_option (\<lambda>(r, s'). (map_sum id (\<lambda>b. ()) r, s')) (view_set fuel (proxies s p) k v s)
       | DeleteProp p k \<Rightarrow> (case view_delete (proxies s p) k s of (r, s') \<Rightarrow> Some (map_sum id (\<lambda>b. ()) r, s'))
       | GetProp p k \<Rightarrow> (case view_get (proxies s p) k (Prx p) s of (r, s') \<Rightarrow> Some (map_sum id (\<lambda>v. ()) r, s')))"

fun run_actions :: "nat \<Rightarrow> action list \<Rightarrow> state \<Rightarrow> ((error + unit) \<times> state) option" where
  "run_actions fuel [] s = Some (Inr (), s)"
| "run_actions fuel (act # acts) s =
     (case perform fuel act s of
         None \<Rightarrow> None
       | Some (Inl e, s1) \<Rightarrow> Some (Inl e, s1)
       | Some (Inr u, s1) \<Rightarrow> run_actions fuel acts s1)"

text \<open>
  What the built-in \<open>Array.prototype.pop\<close> does on a view: it gets \<open>length\<close>, gets and
  deletes the last index, and sets \<open>length\<close>.
\<close>

definition pop_view :: "nat \<Rightarrow> pid \<Rightarrow> state \<Rightarrow> ((error + val) \<times> state) option" where
  "pop_view fuel p s =
     (let target = proxies s p in
      case view_get target (Key length_key) (Prx p) s of
          (Inl e, s1) \<Rightarrow> Some (Inl e, s1)
        | (Inr (Num n), s1) \<Rightarrow>
            if n \<le> 0 then
              (case view_set fuel target (Key length_key) (Num 0) s1 of
                  None \<Rightarrow> None
                | Some (Inl e, s2) \<Rightarrow> Some (Inl e, s2)
                | Some (Inr b, s2) \<Rightarrow> Some (Inr Undefined, s2))
            else
              (case view_get target (Key (Idx (nat n - 1))) (Prx p) s1 of
                  (Inl e, s2) \<Rightarrow> Some (Inl e, s2)
                | (Inr element, s2) \<Rightarrow>
              (case view_delete target (Key (Idx (nat n - 1))) s2 of
                  (Inl e, s3) \<Rightarrow> Some (Inl e, s3)
                | (Inr b, s3) \<Rightarrow>
              (case view_set fuel target (Key length_key) (Num (n - 1)) s3 of
                  None \<Rightarrow> None
                | Some (Inl e, s4) \<Rightarrow> Some (Inl e, s4)
                | Some (Inr b, s4) \<Rightarrow> Some (Inr element, s4))))
        | (Inr v, s1) \<Rightarrow> Some (Inl Unmodelled, s1))"

subsection \<open>Frames\<close>

text \<open>
  What no operation of the module does to an object that exists: it never changes its
  kind, whether it is frozen or what it inherits, never gives an object a proxy when
  \<open>$PROXY\<close> already finds one, and never changes a frozen object at all (its properties,
  its length and its hidden properties stay as they are). New objects are allocated above
  the old ones.
\<close>

definition protects :: "state \<Rightarrow> state \<Rightarrow> bool" where
  "protects s s' \<longleftrightarrow>
     next_addr s \<le> next_addr s'
     \<and> (\<forall>a. a < next_addr s \<longrightarrow>
           kind (heap s' a) = kind (heap s a)
         \<and> frozen (heap s' a) = frozen (heap s a)
         \<and> proto_proxy (heap s' a) = proto_proxy (heap s a)
         \<and> (lookup_proxy (heap s a) \<noteq> None \<longrightarrow> proxy (heap s' a) = proxy (heap s a))
         \<and> (frozen (heap s a) \<longrightarrow>
               props (heap s' a) = props (heap s a)
             \<and> alen (heap s' a) = alen (heap s a)
             \<and> proxy (heap s' a) = proxy (heap s a)
             \<and> (nodes (heap s a) = None \<longrightarrow> nodes (heap s' a) = None)))"

text \<open>What \<open>setProperty\<close> leaves alone besides: the gate, the tracking context, the proxies.\<close>

definition same_env :: "state \<Rightarrow> state \<Rightarrow> bool" where
  "same_env s s' \<longleftrightarrow>
     Writing s' = Writing s \<and> CurrentReaction s' = CurrentReaction s \<and> proxies s' = proxies s
     \<and> next_pid s' = next_pid s \<and> next_addr s' = next_addr s"

subsection \<open>Example heaps\<close>

definition init_state :: state where
  "init_state = \<lparr>heap = (\<lambda>a. empty_obj PlainObject), next_addr = 0, proxies = (\<lambda>p. 0),
     next_pid = 0, Writing = False, CurrentReaction = None, fired = []\<rparr>"

definition new_obj :: "kind \<Rightarrow> (ukey \<times> val) list \<Rightarrow> nat \<Rightarrow> bool \<Rightarrow> obj" where
  "new_obj k ps n fr = (empty_obj k)\<lparr>props := ps, alen := n, frozen := fr\<rparr>"

text \<open>The object \<open>{count: 0}\<close> at address 0.\<close>

definition counter_state :: state where
  "counter_state = snd (alloc (new_obj PlainObject [(Name ''count'', Num 0)] 0 False) init_state)"

text \<open>The same heap with its store created: proxy 0 is the view of address 0.\<close>

definition counter_store :: state where
  "counter_store = snd (the (createStore 2 (Ref 0) counter_state))"

text \<open>
  The counter store after a computation (number 7) has enumerated its keys, inside a
  transaction.
\<close>

definition enumerated_store :: state where
  "enumerated_store =
     (snd (ownKeys 0 (counter_store\<lparr>CurrentReaction := Some 7\<rparr>)))\<lparr>CurrentReaction := None, Writing := True\<rparr>"

text \<open>The array \<open>[1, 2, 3]\<close> at address 0, and its store inside a transaction.\<close>

definition array_state :: state where
  "array_state =
     snd (alloc (new_obj ArrayObject [(Idx 0, Num 1), (Idx 1, Num 2), (Idx 2, Num 3)] 3 False) init_state)"

definition array_store :: state where
  "array_store = (snd (the (createStore 2 (Ref 0) array_state)))\<lparr>Writing := True\<rparr>"

definition val_ok :: "state \<Rightarrow> val \<Rightarrow> bool" where
  "val_ok s v = (case v of Ref a \<Rightarrow> a < next_addr s | _ \<Rightarrow> True)"

definition frozen_child_state :: state where
  "frozen_child_state =
     snd (alloc (new_obj PlainObject [(Name ''child'', Ref 0)] 0 False)
       (snd (alloc (new_obj PlainObject [(Name ''a'', Num 1)] 0 True) init_state)))"

definition frozen_cycle_state :: state where
  "frozen_cycle_state =
     snd (alloc (new_obj PlainObject [(Name ''x'', Ref 0)] 0 False)
       (snd (alloc (new_obj PlainObject [(Name ''self'', Ref 0)] 0 True) init_state)))"

definition same_views :: "state \<Rightarrow> state \<Rightarrow> bool" where
  "same_views s s' \<longleftrightarrow>
     proxies s' = proxies s \<and> next_pid s' = next_pid s \<and> next_addr s \<le> next_addr s'
     \<and> (\<forall>a. a < next_addr s \<longrightarrow> proxy (heap s' a) = proxy (heap s a))"

definition untouched :: "addr \<Rightarrow> state \<Rightarrow> state \<Rightarrow> bool" where
  "untouched a s s' \<longleftrightarrow>
     kind (heap s' a) = kind (heap s a) \<and> props (heap s' a) = props (heap s a)
     \<and> alen (heap s' a) = alen (heap s a) \<and> frozen (heap s' a) = frozen (heap s a)
     \<and> proxy (heap s' a) = proxy (heap s a)
     \<and> (nodes (heap s a) = None \<longrightarrow> nodes (heap s' a) = None)"

definition plain_key :: "bool \<Rightarrow> ukey \<Rightarrow> bool" where
  "plain_key arr k \<longleftrightarrow> \<not> inherited_by_registry k \<and> \<not> (arr \<and> k = length_key)"

definition frozen_counter_state :: state where
  "frozen_counter_state = snd (alloc (new_obj PlainObject [(Name ''a'', Num 1)] 0 True) init_state)"

text \<open>The counter store after its callback has assigned 5 to the property \<open>_\<close>.\<close>

definition underscore_store :: state where
  "underscore_store =
     snd (the (setStore (Prx 0) (\<lambda>v. run_actions 1 [SetProp 0 (Key (Name ''_'')) (Num 5)]) counter_store))"

text \<open>
  The array store after a computation (number 7) has read index 2 and a callback has then
  set \<open>length\<close> to 1.
\<close>

definition truncated_store :: state where
  "truncated_store =
     snd (the (setStore (Prx 0) (\<lambda>v. run_actions 1 [SetProp 0 (Key length_key) (Num 1)])
       ((snd (proxy_get 0 (Key (Idx 2)) (Prx 0) (array_store\<lparr>Writing := False, CurrentReaction := Some 7\<rparr>)))
          \<lparr>CurrentReaction := None\<rparr>)))"

text \<open>A store over \<open>Object.create(null)\<close>, inside a transaction.\<close>

definition bare_store :: state where
  "bare_store =
     (snd (the (createStore 2 (Ref 0) (snd (alloc (new_obj NullProtoObject [] 0 False) init_state)))))
       \<lparr>Writing := True\<rparr>"

definition keeps_data :: "state \<Rightarrow> state \<Rightarrow> bool" where
  "keeps_data s s' \<longleftrightarrow>
     fired s' = fired s \<and> Writing s' = Writing s
     \<and> (\<forall>b. kind (heap s' b) = kind (heap s b) \<and> props (heap s' b) = props (heap s b)
            \<and> alen (heap s' b) = alen (heap s b) \<and> frozen (heap s' b) = frozen (heap s b))"

text \<open>The array store outside a transaction.\<close>

definition closed_array_store :: state where
  "closed_array_store = array_store\<lparr>Writing := False\<rparr>"

text \<open>
  What the mutator of the store over the frozen object \<open>{a: 1}\<close> returns for the callback
  \<open>view.toString = 1\<close>.
\<close>

definition frozen_counter_write :: "((error + unit) \<times> state) option" where
  "frozen_counter_write =
     setStore (Prx 0) (\<lambda>v. run_actions 1 [SetProp 0 (Key (Name ''toString'')) (Num 1)])
       (snd (the (createStore 2 (Ref 0) frozen_counter_state)))"

text \<open>The counter store inside the computation number 7.\<close>

definition tracked_counter_store :: state where
  "tracked_counter_store = counter_store\<lparr>CurrentReaction := Some 7\<rparr>"

text \<open>The cells that \<open>s'\<close> has and \<open>s\<close> has not are among \<open>S\<close>.\<close>

definition only_new :: "(addr \<times> ukey) set \<Rightarrow> state \<Rightarrow> state \<Rightarrow> bool" where
  "only_new S s s' \<longleftrightarrow> (\<forall>a k. cells s' a k \<noteq> None \<longrightarrow> cells s a k \<noteq> None \<or> (a, k) \<in> S)"

subsection \<open>Heaps on which unwrap returns\<close>

text \<open>The values that the properties of an object hold.\<close>

definition slots :: "state \<Rightarrow> addr \<Rightarrow> val set" where
  "slots s a = snd ` set (props (heap s a))"

text \<open>A value that refers to no object at or above \<open>N\<close>.\<close>

definition old_val :: "nat \<Rightarrow> val \<Rightarrow> bool" where
  "old_val N v = (case v of Ref b \<Rightarrow> b < N | _ \<Rightarrow> True)"

text \<open>
  How far a call of \<open>unwrap\<close> on a value can descend through frozen objects before it
  meets an object that is not frozen: one more than the rank of a frozen object.
\<close>

definition depth_of :: "(addr \<Rightarrow> nat) \<Rightarrow> state \<Rightarrow> val \<Rightarrow> nat" where
  "depth_of rk s v = (case v of Ref b \<Rightarrow> if frozen (heap s b) then Suc (rk b) else 0 | _ \<Rightarrow> 0)"

text \<open>The objects below \<open>N\<close> that are not in the set of visited objects.\<close>

definition unvisited :: "nat \<Rightarrow> addr list \<Rightarrow> addr set" where
  "unvisited N vis = {a. a < N \<and> a \<notin> set vis}"

text \<open>
  The heaps on which \<open>unwrap\<close> returns. The heap is closed (views and properties refer
  to allocated objects) and no object has a key twice, as in every heap the engine builds;
  and the frozen objects can be ranked: \<open>rk\<close> gives every frozen object a rank below \<open>M\<close>,
  and a frozen object that a property of a frozen object holds has a smaller rank. Such a
  ranking exists exactly when no frozen object reaches itself through frozen objects only.
\<close>

definition frozen_ranked :: "state \<Rightarrow> (addr \<Rightarrow> nat) \<Rightarrow> nat \<Rightarrow> bool" where
  "frozen_ranked s rk M \<longleftrightarrow>
     (\<forall>p. proxies s p < next_addr s)
     \<and> (\<forall>a < next_addr s.
          distinct (map fst (props (heap s a)))
        \<and> (\<forall>v \<in> slots s a. val_ok s v)
        \<and> (frozen (heap s a) \<longrightarrow>
              rk a < M \<and> (\<forall>b. Ref b \<in> slots s a \<and> frozen (heap s b) \<longrightarrow> rk b < rk a)))"

text \<open>
  What holds throughout a traversal that started when the heap had \<open>N\<close> objects: the
  visited objects are among these, the heap stays closed, the objects among the first \<open>N\<close>
  that are not visited hold only references below \<open>N\<close>, the frozen ones among the first
  \<open>N\<close> stay ranked, and the copies, at and above \<open>N\<close>, are not frozen.
\<close>

definition traversal_inv :: "nat \<Rightarrow> (addr \<Rightarrow> nat) \<Rightarrow> nat \<Rightarrow> addr list \<Rightarrow> state \<Rightarrow> bool" where
  "traversal_inv N rk M vis s \<longleftrightarrow>
     N \<le> next_addr s
     \<and> set vis \<subseteq> {a. a < N}
     \<and> (\<forall>p. proxies s p < N)
     \<and> (\<forall>a < next_addr s. distinct (map fst (props (heap s a))) \<and> (\<forall>v \<in> slots s a. val_ok s v))
     \<and> (\<forall>a < N. a \<notin> set vis \<longrightarrow> (\<forall>v \<in> slots s a. old_val N v))
     \<and> (\<forall>a < N. frozen (heap s a) \<longrightarrow>
            rk a < M \<and> (\<forall>b. Ref b \<in> slots s a \<and> frozen (heap s b) \<longrightarrow> rk b < rk a))
     \<and> (\<forall>a. N \<le> a \<and> a < next_addr s \<longrightarrow> \<not> frozen (heap s a))"

text \<open>The object whose loop is running: a visited object or a copy.\<close>

definition in_progress :: "nat \<Rightarrow> addr \<Rightarrow> addr list \<Rightarrow> state \<Rightarrow> bool" where
  "in_progress N b vis s \<longleftrightarrow> b \<in> set vis \<or> (N \<le> b \<and> b < next_addr s)"

text \<open>
  What a call leaves alone: the objects that were visited before it, and those it has not
  visited; \<open>ex\<close> is the object of the running loop, which the loop assigns to.
\<close>

definition traversal_frame :: "addr option \<Rightarrow> addr list \<Rightarrow> state \<Rightarrow> addr list \<Rightarrow> state \<Rightarrow> bool" where
  "traversal_frame ex vis s vis' s' \<longleftrightarrow>
     set vis \<subseteq> set vis' \<and> next_addr s \<le> next_addr s'
     \<and> (\<forall>a. Some a \<noteq> ex \<and> (a \<in> set vis \<or> (a \<notin> set vis' \<and> a < next_addr s))
            \<longrightarrow> heap s' a = heap s a)"

text \<open>The fuel \<open>n\<close> is enough for a call on \<open>v\<close>.\<close>

definition enough_fuel :: "nat \<Rightarrow> (addr \<Rightarrow> nat) \<Rightarrow> nat \<Rightarrow> nat \<Rightarrow> addr list \<Rightarrow> state \<Rightarrow> val \<Rightarrow> bool" where
  "enough_fuel N rk M n vis s v \<longleftrightarrow> old_val N v \<and> card (unvisited N vis) * Suc M + depth_of rk s v < n"

text \<open>Every call, and every loop, returns at fuel \<open>n\<close> and keeps the invariant.\<close>

definition call_returns :: "nat \<Rightarrow> (addr \<Rightarrow> nat) \<Rightarrow> nat \<Rightarrow> nat \<Rightarrow> bool" where
  "call_returns N rk M n \<longleftrightarrow>
     (\<forall>item vis s. traversal_inv N rk M vis s \<and> enough_fuel N rk M n vis s item \<longrightarrow>
        (\<exists>v vis' s'. unwrap n item vis s = Some (v, vis', s')
           \<and> traversal_inv N rk M vis' s' \<and> traversal_frame None vis s vis' s' \<and> val_ok s' v))"

definition loop_returns :: "nat \<Rightarrow> (addr \<Rightarrow> nat) \<Rightarrow> nat \<Rightarrow> nat \<Rightarrow> bool" where
  "loop_returns N rk M n \<longleftrightarrow>
     (\<forall>b ks vis s. traversal_inv N rk M vis s \<and> in_progress N b vis s \<and> \<not> frozen (heap s b) \<and> distinct ks
          \<and> (is_array s b \<longrightarrow> length_key \<notin> set ks)
          \<and> (\<forall>k \<in> set ks. enough_fuel N rk M n vis s (raw_get s b k)) \<longrightarrow>
        (\<exists>vis' s'. unwrap_props n b ks vis s = Some (vis', s')
           \<and> traversal_inv N rk M vis' s' \<and> traversal_frame (Some b) vis s vis' s'))"

text \<open>
  What \<open>unwrap\<close> returns for a value when it returns: the target of a view, a new object
  for a frozen aggregate, the value itself otherwise.
\<close>

definition unwrapped :: "state \<Rightarrow> val \<Rightarrow> val" where
  "unwrapped s x =
     (case x of
         Prx p \<Rightarrow> Ref (proxies s p)
       | Ref a \<Rightarrow> if frozen (heap s a) \<and> isWrappable s x then Ref (next_addr s) else x
       | _ \<Rightarrow> x)"

text \<open>
  A value in which \<open>unwrap\<close> has nothing to replace, being neither a view nor a frozen
  aggregate, and a heap whose properties hold such values only.
\<close>

definition settled_val :: "state \<Rightarrow> val \<Rightarrow> bool" where
  "settled_val s v =
     (case v of
         Prx p \<Rightarrow> False
       | Ref a \<Rightarrow> \<not> (frozen (heap s a) \<and> isWrappable s v)
       | _ \<Rightarrow> True)"

definition settled :: "state \<Rightarrow> bool" where
  "settled s \<longleftrightarrow> (\<forall>a. \<forall>v \<in> slots s a. settled_val s v)"

text \<open>The keys of the loop over an array are indices below its length.\<close>

definition in_range :: "state \<Rightarrow> addr \<Rightarrow> ukey list \<Rightarrow> bool" where
  "in_range s b ks \<longleftrightarrow> (is_array s b \<longrightarrow> (\<forall>k \<in> set ks. \<exists>i. k = Idx i \<and> i < alen (heap s b)))"

text \<open>
  The counter store and, at address 1, an object whose prototype is the raw node of the
  store: the lookup of \<open>$PROXY\<close> on it finds the view of the store.
\<close>

definition instance_state :: state where
  "instance_state = snd (alloc ((empty_obj ClassInstance)\<lparr>proto_proxy := Some 0\<rparr>) counter_store)"

text \<open>The counter store after user code has frozen its raw node.\<close>

definition frozen_later_store :: state where
  "frozen_later_store = upd_obj 0 (\<lambda>ob. ob\<lparr>frozen := True\<rparr>) counter_store"

section \<open>Properties\<close>

subsection \<open>What the basic operations change\<close>

lemma upd_obj_fields [simp]:
  "heap (upd_obj a f s) = (heap s)(a := f (heap s a))"
  "fired (upd_obj a f s) = fired s"
  "next_addr (upd_obj a f s) = next_addr s"
  "proxies (upd_obj a f s) = proxies s"
  "next_pid (upd_obj a f s) = next_pid s"
  "Writing (upd_obj a f s) = Writing s"
  "CurrentReaction (upd_obj a f s) = CurrentReaction s"
  by (simp_all add: upd_obj_def)

lemma cells_set_cell [simp]:
  "cells (set_cell a k c s) b =
     (if b = a \<and> nodes (heap s a) \<noteq> None then (cells s a)(k \<mapsto> c) else cells s b)"
  by (auto simp: cells_def set_cell_def split: option.splits)

lemma set_cell_fields [simp]:
  "fired (set_cell a k c s) = fired s"
  "next_addr (set_cell a k c s) = next_addr s"
  "proxies (set_cell a k c s) = proxies s"
  "next_pid (set_cell a k c s) = next_pid s"
  "Writing (set_cell a k c s) = Writing s"
  "CurrentReaction (set_cell a k c s) = CurrentReaction s"
  "kind (heap (set_cell a k c s) b) = kind (heap s b)"
  "props (heap (set_cell a k c s) b) = props (heap s b)"
  "alen (heap (set_cell a k c s) b) = alen (heap s b)"
  "frozen (heap (set_cell a k c s) b) = frozen (heap s b)"
  "proxy (heap (set_cell a k c s) b) = proxy (heap s b)"
  "proto_proxy (heap (set_cell a k c s) b) = proto_proxy (heap s b)"
  by (simp_all add: set_cell_def)

lemma fire_cell_fields [simp]:
  "next_addr (fire_cell a k v s) = next_addr s"
  "proxies (fire_cell a k v s) = proxies s"
  "next_pid (fire_cell a k v s) = next_pid s"
  "Writing (fire_cell a k v s) = Writing s"
  "CurrentReaction (fire_cell a k v s) = CurrentReaction s"
  "kind (heap (fire_cell a k v s) b) = kind (heap s b)"
  "props (heap (fire_cell a k v s) b) = props (heap s b)"
  "alen (heap (fire_cell a k v s) b) = alen (heap s b)"
  "frozen (heap (fire_cell a k v s) b) = frozen (heap s b)"
  "proxy (heap (fire_cell a k v s) b) = proxy (heap s b)"
  "proto_proxy (heap (fire_cell a k v s) b) = proto_proxy (heap s b)"
  by (simp_all add: fire_cell_def split: option.splits)

lemma fired_fire_cell:
  "fired (fire_cell a k v s) = (if cells s a k = None then fired s else fired s @ [(a, k)])"
  by (simp add: fire_cell_def split: option.splits)

lemma cells_fired_update [simp]: "cells (s\<lparr>fired := l\<rparr>) = cells s"
  by (simp add: cells_def fun_eq_iff)

lemma cells_fire_cell_None [simp]:
  "cells (fire_cell a k v s) b k' = None \<longleftrightarrow> cells s b k' = None"
  by (simp add: fire_cell_def split: option.splits)

lemma raw_get_set_cell [simp]: "raw_get (set_cell a k c s) b k' = raw_get s b k'"
  by (simp add: raw_get_def is_array_def split: option.splits ukey.splits)

lemma raw_get_fire_cell [simp]: "raw_get (fire_cell a k v s) b k' = raw_get s b k'"
  by (simp add: raw_get_def is_array_def split: option.splits ukey.splits)

lemma is_array_set_cell [simp]: "is_array (set_cell a k c s) b = is_array s b"
  by (simp add: is_array_def)

lemma is_array_fire_cell [simp]: "is_array (fire_cell a k v s) b = is_array s b"
  by (simp add: is_array_def)

lemma getDataNodes_cases:
  "getDataNodes t s = (r, s1) \<Longrightarrow>
     (r = Inr () \<and> cells s1 = cells s \<and> fired s1 = fired s \<and> nodes (heap s1 t) \<noteq> None)
     \<or> (r = Inl TypeError \<and> s1 = s)"
  by (auto simp: getDataNodes_def cells_def fun_eq_iff split: option.splits if_splits)

lemma nodes_set_cell_None [simp]:
  "nodes (heap (set_cell a k c s) b) = None \<longleftrightarrow> nodes (heap s b) = None"
  by (simp add: set_cell_def)

lemma nodes_fire_cell_None [simp]:
  "nodes (heap (fire_cell a k v s) b) = None \<longleftrightarrow> nodes (heap s b) = None"
  by (simp add: fire_cell_def split: option.splits)

lemma nodes_getDataNode_None [simp]:
  "nodes (heap (snd (getDataNode a k v s)) b) = None \<longleftrightarrow> nodes (heap s b) = None"
  by (simp add: getDataNode_def split: option.splits ukey.splits)

lemma getDataNode_result:
  "getDataNode t k v s = (nd, s1) \<Longrightarrow> nodes (heap s t) \<noteq> None \<Longrightarrow>
     fired s1 = fired s \<and>
     ((nd = CellNode k \<and> cells s1 t k \<noteq> None) \<or> (\<exists>n. nd = InheritedNode n \<and> s1 = s \<and> k = Name n \<and> inherited_by_registry k))"
  by (auto simp: getDataNode_def split: option.splits ukey.splits if_splits)

lemma andThen_Inr:
  "andThen m f = (Inr y, s') \<longleftrightarrow> (\<exists>x s1. m = (Inr x, s1) \<and> f x s1 = (Inr y, s'))"
  by (cases m) (auto simp: andThen_def split: sum.splits)

lemma andThen_simps [simp]:
  "andThen (Inl e, s) f = (Inl e, s)"
  "andThen (Inr x, s) f = f x s"
  by (simp_all add: andThen_def)

lemma raw_set_fields:
  "raw_set a k v s = (r, s1) \<Longrightarrow>
     fired s1 = fired s \<and> cells s1 = cells s \<and> next_addr s1 = next_addr s
     \<and> proxies s1 = proxies s \<and> next_pid s1 = next_pid s \<and> Writing s1 = Writing s
     \<and> CurrentReaction s1 = CurrentReaction s
     \<and> (\<forall>b. kind (heap s1 b) = kind (heap s b) \<and> frozen (heap s1 b) = frozen (heap s b)
            \<and> proxy (heap s1 b) = proxy (heap s b) \<and> nodes (heap s1 b) = nodes (heap s b)
            \<and> proto_proxy (heap s1 b) = proto_proxy (heap s b))"
  by (auto simp: raw_set_def cells_def fun_eq_iff split: if_splits val.splits)

lemma raw_delete_fields:
  "raw_delete a k s = (r, s1) \<Longrightarrow>
     fired s1 = fired s \<and> cells s1 = cells s \<and> next_addr s1 = next_addr s
     \<and> proxies s1 = proxies s \<and> next_pid s1 = next_pid s \<and> Writing s1 = Writing s
     \<and> CurrentReaction s1 = CurrentReaction s
     \<and> (\<forall>b. kind (heap s1 b) = kind (heap s b) \<and> frozen (heap s1 b) = frozen (heap s b)
            \<and> proxy (heap s1 b) = proxy (heap s b) \<and> nodes (heap s1 b) = nodes (heap s b)
            \<and> proto_proxy (heap s1 b) = proto_proxy (heap s b)
            \<and> alen (heap s1 b) = alen (heap s b))"
  by (auto simp: raw_delete_def cells_def fun_eq_iff split: if_splits)

lemma getDataNode_length:
  "getDataNode st length_key v s = (CellNode length_key, snd (getDataNode st length_key v s))"
  by (simp add: getDataNode_def inherited_by_registry_def object_prototype_names_def
      split: option.splits)

lemma getDataNode_CellNode: "getDataNode st p v s = (CellNode k, s1) \<Longrightarrow> k = p"
  by (auto simp: getDataNode_def split: option.splits ukey.splits if_splits)

lemma fire_length_eq:
  "fire_length st len s =
     (Inr (), if is_array s st \<and> \<not> strict_eq (raw_get s st length_key) len
              then fire_cell st length_key (raw_get s st length_key) (snd (getDataNode st length_key len s))
              else s)"
proof -
  obtain t where t: "getDataNode st length_key len s = (CellNode length_key, t)"
    using getDataNode_length by blast
  then show ?thesis by (simp add: fire_length_def fire_node_def)
qed

text \<open>The steps of a call of setProperty that returns normally past the first test.\<close>

lemma setProperty_steps:
  assumes "setProperty st p v d s = (Inr (), s')"
    and "d \<or> \<not> strict_eq (raw_get s st p) v"
  obtains s1 s2 s3 where
    "(if d then raw_delete st p s else raw_set st p v s) = (Inr (), s1)"
    "getDataNodes st s1 = (Inr (), s2)"
    "getDataNode st p (raw_get s st p) s2 = (CellNode p, s3)"
    "s' = fire_self st (snd (fire_length st (raw_get s st length_key) (fire_cell st p v s3)))"
    "p \<noteq> Name ''__proto__''"
proof -
  from assms have np: "p \<noteq> Name ''__proto__''"
    by (auto simp: setProperty_def split: if_splits)
  from assms np have
    "andThen (if d then raw_delete st p s else raw_set st p v s) (\<lambda>u s1.
     andThen (getDataNodes st s1) (\<lambda>u s2.
     andThen (case getDataNode st p (raw_get s st p) s2 of (nd, s3) \<Rightarrow> fire_node st nd v s3) (\<lambda>u s4.
     andThen (fire_length st (raw_get s st length_key) s4) (\<lambda>u s5.
     (Inr (), fire_self st s5))))) = (Inr (), s')"
    by (auto simp: setProperty_def Let_def)
  then obtain s1 where
    s1: "(if d then raw_delete st p s else raw_set st p v s) = (Inr (), s1)" and
    r1: "andThen (getDataNodes st s1) (\<lambda>u s2.
     andThen (case getDataNode st p (raw_get s st p) s2 of (nd, s3) \<Rightarrow> fire_node st nd v s3) (\<lambda>u s4.
     andThen (fire_length st (raw_get s st length_key) s4) (\<lambda>u s5.
     (Inr (), fire_self st s5)))) = (Inr (), s')"
    unfolding andThen_Inr [of "if d then raw_delete st p s else raw_set st p v s"] by auto
  from r1 obtain s2 where
    s2: "getDataNodes st s1 = (Inr (), s2)" and
    r2: "andThen (case getDataNode st p (raw_get s st p) s2 of (nd, s3) \<Rightarrow> fire_node st nd v s3) (\<lambda>u s4.
     andThen (fire_length st (raw_get s st length_key) s4) (\<lambda>u s5.
     (Inr (), fire_self st s5))) = (Inr (), s')"
    unfolding andThen_Inr [of "getDataNodes st s1"] by auto
  from r2 obtain s4 where
    s4: "(case getDataNode st p (raw_get s st p) s2 of (nd, s3) \<Rightarrow> fire_node st nd v s3) = (Inr (), s4)" and
    r3: "andThen (fire_length st (raw_get s st length_key) s4) (\<lambda>u s5.
     (Inr (), fire_self st s5)) = (Inr (), s')"
    unfolding andThen_Inr [of "case getDataNode st p (raw_get s st p) s2 of (nd, s3) \<Rightarrow> fire_node st nd v s3"]
    by auto
  from r3 have s': "s' = fire_self st (snd (fire_length st (raw_get s st length_key) s4))"
    by (simp add: fire_length_eq)
  obtain nd s3 where s3: "getDataNode st p (raw_get s st p) s2 = (nd, s3)"
    by (cases "getDataNode st p (raw_get s st p) s2") auto
  with s4 have "nd = CellNode p" "s4 = fire_cell st p v s3"
    by (cases nd; auto simp: fire_node_def dest: getDataNode_CellNode)+
  with that s1 s2 s3 s' np show thesis by blast
qed


lemma observers_fire_cell_ex [simp]:
  "(\<exists>z. cells (fire_cell a k v s) b k' = Some z \<and> observers z = os)
     \<longleftrightarrow> (\<exists>z. cells s b k' = Some z \<and> observers z = os)"
  by (auto simp: fire_cell_def split: option.splits if_splits)

lemma fire_cell_observers:
  "cells s b k' = Some c \<Longrightarrow> \<exists>c'. cells (fire_cell a k v s) b k' = Some c' \<and> observers c' = observers c"
  by (auto simp: fire_cell_def split: option.splits)

lemma cells_fire_cell_Some [simp]:
  "(\<exists>y. cells (fire_cell a k v s) b k' = Some y) \<longleftrightarrow> (\<exists>y. cells s b k' = Some y)"
  using cells_fire_cell_None [of a k v s b k'] by (metis option.exhaust option.distinct(1))

lemma getDataNode_keeps:
  "cells s b k' \<noteq> None \<Longrightarrow> cells (snd (getDataNode a k v s)) b k' = cells s b k'"
  by (auto simp: getDataNode_def split: option.splits ukey.splits)

lemma getDataNode_fired [simp]: "fired (snd (getDataNode a k v s)) = fired s"
  by (auto simp: getDataNode_def split: option.splits ukey.splits)

lemma getDataNode_creates:
  "getDataNode a k v s = (CellNode k', s1) \<Longrightarrow> nodes (heap s a) \<noteq> None \<Longrightarrow> cells s1 a k \<noteq> None"
  by (auto simp: getDataNode_def split: option.splits ukey.splits if_splits)

lemma getDataNodes_heap:
  "kind (heap (snd (getDataNodes t s)) b) = kind (heap s b)"
  "props (heap (snd (getDataNodes t s)) b) = props (heap s b)"
  "alen (heap (snd (getDataNodes t s)) b) = alen (heap s b)"
  "frozen (heap (snd (getDataNodes t s)) b) = frozen (heap s b)"
  "proxy (heap (snd (getDataNodes t s)) b) = proxy (heap s b)"
  "proto_proxy (heap (snd (getDataNodes t s)) b) = proto_proxy (heap s b)"
  by (auto simp: getDataNodes_def split: option.splits)

lemma getDataNode_heap [simp]:
  "kind (heap (snd (getDataNode t k v s)) b) = kind (heap s b)"
  "props (heap (snd (getDataNode t k v s)) b) = props (heap s b)"
  "alen (heap (snd (getDataNode t k v s)) b) = alen (heap s b)"
  "frozen (heap (snd (getDataNode t k v s)) b) = frozen (heap s b)"
  "proxy (heap (snd (getDataNode t k v s)) b) = proxy (heap s b)"
  "proto_proxy (heap (snd (getDataNode t k v s)) b) = proto_proxy (heap s b)"
  by (auto simp: getDataNode_def split: option.splits ukey.splits)

lemma strict_eq_Num [simp]: "strict_eq (Num a) (Num b) \<longleftrightarrow> a = b"
  by (simp add: strict_eq_def)

lemma raw_get_length: "is_array s a \<Longrightarrow> raw_get s a length_key = Num (int (alen (heap s a)))"
  by (simp add: raw_get_def)

lemma fire_length_fired_prefix: "\<exists>l. fired (snd (fire_length st len s)) = fired s @ l"
  by (simp add: fire_length_eq fired_fire_cell)

lemma fire_length_observers:
  assumes "cells s st k = Some c"
  shows "\<exists>c'. cells (snd (fire_length st len s)) st k = Some c' \<and> observers c' = observers c"
proof -
  have "cells (snd (getDataNode st length_key len s)) st k = cells s st k"
    using assms by (intro getDataNode_keeps) simp
  with assms show ?thesis by (simp add: fire_length_eq)
qed

lemma fire_length_heap [simp]:
  "kind (heap (snd (fire_length st len s)) b) = kind (heap s b)"
  "props (heap (snd (fire_length st len s)) b) = props (heap s b)"
  "alen (heap (snd (fire_length st len s)) b) = alen (heap s b)"
  "frozen (heap (snd (fire_length st len s)) b) = frozen (heap s b)"
  "proxy (heap (snd (fire_length st len s)) b) = proxy (heap s b)"
  "proto_proxy (heap (snd (fire_length st len s)) b) = proto_proxy (heap s b)"
  by (simp_all add: fire_length_eq)

lemma fire_self_heap [simp]:
  "kind (heap (fire_self st s) b) = kind (heap s b)"
  "props (heap (fire_self st s) b) = props (heap s b)"
  "alen (heap (fire_self st s) b) = alen (heap s b)"
  "frozen (heap (fire_self st s) b) = frozen (heap s b)"
  "proxy (heap (fire_self st s) b) = proxy (heap s b)"
  "proto_proxy (heap (fire_self st s) b) = proto_proxy (heap s b)"
  by (simp_all add: fire_self_def split: option.splits)

subsection \<open>Frame lemmas\<close>

lemma protects_refl [simp]: "protects s s"
  by (simp add: protects_def)

lemma protects_trans: "protects s s1 \<Longrightarrow> protects s1 s2 \<Longrightarrow> protects s s2"
proof -
  assume a: "protects s s1" and b: "protects s1 s2"
  have n: "next_addr s \<le> next_addr s1" "next_addr s1 \<le> next_addr s2"
    using a b by (auto simp: protects_def)
  have "kind (heap s2 x) = kind (heap s x)
         \<and> frozen (heap s2 x) = frozen (heap s x)
         \<and> proto_proxy (heap s2 x) = proto_proxy (heap s x)
         \<and> (lookup_proxy (heap s x) \<noteq> None \<longrightarrow> proxy (heap s2 x) = proxy (heap s x))
         \<and> (frozen (heap s x) \<longrightarrow>
               props (heap s2 x) = props (heap s x)
             \<and> alen (heap s2 x) = alen (heap s x)
             \<and> proxy (heap s2 x) = proxy (heap s x)
             \<and> (nodes (heap s x) = None \<longrightarrow> nodes (heap s2 x) = None))"
    if x: "x < next_addr s" for x
  proof -
    from x n have x1: "x < next_addr s1" by simp
    from a x have A: "kind (heap s1 x) = kind (heap s x)" "frozen (heap s1 x) = frozen (heap s x)"
      "proto_proxy (heap s1 x) = proto_proxy (heap s x)"
      "lookup_proxy (heap s x) \<noteq> None \<Longrightarrow> proxy (heap s1 x) = proxy (heap s x)"
      "frozen (heap s x) \<Longrightarrow> props (heap s1 x) = props (heap s x) \<and> alen (heap s1 x) = alen (heap s x)
          \<and> proxy (heap s1 x) = proxy (heap s x) \<and> (nodes (heap s x) = None \<longrightarrow> nodes (heap s1 x) = None)"
      by (simp_all add: protects_def)
    from b x1 have B: "kind (heap s2 x) = kind (heap s1 x)" "frozen (heap s2 x) = frozen (heap s1 x)"
      "proto_proxy (heap s2 x) = proto_proxy (heap s1 x)"
      "lookup_proxy (heap s1 x) \<noteq> None \<Longrightarrow> proxy (heap s2 x) = proxy (heap s1 x)"
      "frozen (heap s1 x) \<Longrightarrow> props (heap s2 x) = props (heap s1 x) \<and> alen (heap s2 x) = alen (heap s1 x)
          \<and> proxy (heap s2 x) = proxy (heap s1 x) \<and> (nodes (heap s1 x) = None \<longrightarrow> nodes (heap s2 x) = None)"
      by (simp_all add: protects_def)
    have L: "lookup_proxy (heap s1 x) = lookup_proxy (heap s x)" if "lookup_proxy (heap s x) \<noteq> None"
      using A(3) A(4) [OF that] by (simp add: lookup_proxy_def split: option.splits)
    show ?thesis
      using A(1-3) B(1-3) A(4) B(4) L A(5) B(5) by auto
  qed
  with n show ?thesis by (simp add: protects_def)
qed

lemma protects_andThen:
  assumes "protects s (snd m)" and "\<And>x s1. protects s1 (snd (f x s1))"
  shows "protects s (snd (andThen m f))"
proof (cases m)
  case (Pair r s1)
  show ?thesis
  proof (cases r)
    case (Inl e)
    with Pair assms(1) show ?thesis by simp
  next
    case (Inr x)
    with Pair assms(1) assms(2) [of s1 x] show ?thesis
      by (auto intro: protects_trans)
  qed
qed

lemma protects_set_cell [simp]: "protects s (set_cell a k c s)"
  by (simp add: protects_def set_cell_def)

lemma protects_fire_cell [simp]: "protects s (fire_cell a k v s)"
  by (auto simp: fire_cell_def protects_def set_cell_def split: option.splits)

lemma protects_read_cell [simp]: "protects s (snd (read_cell a k s))"
  by (auto simp: read_cell_def split: option.splits)

lemma protects_getDataNodes [simp]: "protects s (snd (getDataNodes t s))"
  by (auto simp: getDataNodes_def protects_def split: option.splits)

lemma protects_getDataNode [simp]: "protects s (snd (getDataNode t k v s))"
  by (auto simp: getDataNode_def split: option.splits ukey.splits)

lemma protects_raw_set [simp]: "protects s (snd (raw_set a k v s))"
  by (auto simp: raw_set_def protects_def split: val.splits)

lemma protects_raw_delete [simp]: "protects s (snd (raw_delete a k s))"
  by (auto simp: raw_delete_def protects_def)

lemma protects_wrap [simp]: "protects s (snd (wrap v s))"
  by (auto simp: wrap_def protects_def Let_def lookup_proxy_def split: val.splits option.splits)

lemma protects_alloc [simp]: "protects s (snd (alloc ob s))"
  by (auto simp: alloc_def protects_def)

lemma protects_trackSelf [simp]: "protects s (snd (trackSelf t s))"
proof -
  have a: "\<And>s1. protects s1 (case cells s1 t self_key of Some c \<Rightarrow> s1
                | None \<Rightarrow> set_cell t self_key (createDataNode Undefined) s1)"
    by (simp split: option.splits)
  have b: "\<And>s1. protects s1 (snd (read_cell t self_key (case cells s1 t self_key of Some c \<Rightarrow> s1
                | None \<Rightarrow> set_cell t self_key (createDataNode Undefined) s1)))"
    using a protects_read_cell by (blast intro: protects_trans)
  show ?thesis
  proof (cases "CurrentReaction s")
    case None
    then show ?thesis by (simp add: trackSelf_def)
  next
    case (Some r)
    obtain e s1 where g: "getDataNodes t s = (e, s1)" by (cases "getDataNodes t s") auto
    then have "protects s s1" using protects_getDataNodes [of s t] by simp
    with Some g b [of s1] show ?thesis
      by (cases e) (auto simp: trackSelf_def Let_def intro: protects_trans)
  qed
qed

lemma protects_fire_node [simp]: "protects s (snd (fire_node t nd v s))"
  by (simp add: fire_node_def split: node.splits)

lemma protects_fire_length [simp]: "protects s (snd (fire_length st len s))"
  using protects_trans [OF protects_getDataNode protects_fire_cell]
  by (simp add: fire_length_eq)

lemma protects_fire_self [simp]: "protects s (fire_self st s)"
  by (simp add: fire_self_def split: option.splits)

lemma andThen_rel:
  assumes "R s (snd m)" and "\<And>x s1. R s1 (snd (f x s1))"
    and "\<And>a b c. R a b \<Longrightarrow> R b c \<Longrightarrow> R a c"
  shows "R s (snd (andThen m f))"
proof (cases m)
  case (Pair r s1)
  show ?thesis
  proof (cases r)
    case (Inl e)
    with Pair assms(1) show ?thesis by simp
  next
    case (Inr x)
    with Pair assms(1) assms(2) [of s1 x] assms(3) show ?thesis by auto
  qed
qed

text \<open>A relation that every basic step respects is respected by setProperty.\<close>

lemma setProperty_rel_at:
  assumes refl: "\<And>s. R s s" and trans: "\<And>a b c. R a b \<Longrightarrow> R b c \<Longrightarrow> R a c"
    and rs: "\<And>s. R s (snd (raw_set st p v s))"
    and rd: "\<And>s. R s (snd (raw_delete st p s))"
    and gs: "\<And>s. R s (snd (getDataNodes st s))"
    and gn: "\<And>k w s. k = p \<or> k = length_key \<Longrightarrow> R s (snd (getDataNode st k w s))"
    and fc: "\<And>k w s. R s (fire_cell st k w s)"
  shows "R s (snd (setProperty st p v d s))"
proof -
  have fnode: "\<And>nd w s. R s (snd (fire_node st nd w s))"
    by (simp add: fire_node_def refl fc split: node.splits)
  have a: "\<And>s2. R s2 (snd (case getDataNode st p (raw_get s st p) s2 of (nd, s3) \<Rightarrow> fire_node st nd v s3))"
  proof -
    fix s2
    obtain nd s3 where g: "getDataNode st p (raw_get s st p) s2 = (nd, s3)"
      by (cases "getDataNode st p (raw_get s st p) s2") auto
    then have "R s2 s3" using gn [of p s2 "raw_get s st p"] by simp
    with fnode [of s3 nd v] g show "R s2 (snd (case getDataNode st p (raw_get s st p) s2 of (nd, s3) \<Rightarrow> fire_node st nd v s3))"
      by (auto intro: trans)
  qed
  have fl: "\<And>len s. R s (snd (fire_length st len s))"
    using trans [OF gn [of length_key] fc] by (simp add: fire_length_eq refl)
  have fs: "\<And>s. R s (fire_self st s)"
    by (simp add: fire_self_def refl fc split: option.splits)
  show ?thesis
  proof (cases "(\<not> d \<and> strict_eq (raw_get s st p) v) \<or> p = Name ''__proto__''")
    case True
    then show ?thesis by (auto simp: setProperty_def refl)
  next
    case False
    have raw: "R s (snd (if d then raw_delete st p s else raw_set st p v s))"
      by (simp add: rs rd)
    have "R s (snd (andThen (if d then raw_delete st p s else raw_set st p v s) (\<lambda>u s1.
           andThen (getDataNodes st s1) (\<lambda>u s2.
           andThen (case getDataNode st p (raw_get s st p) s2 of (nd, s3) \<Rightarrow> fire_node st nd v s3) (\<lambda>u s4.
           andThen (fire_length st (raw_get s st length_key) s4) (\<lambda>u s5.
           (Inr (), fire_self st s5)))))))"
      by (intro andThen_rel [of R] raw gs a fl) (simp_all add: fs, (erule (1) trans)+)
    with False show ?thesis by (auto simp: setProperty_def Let_def)
  qed
qed

lemma setProperty_rel:
  assumes refl: "\<And>s. R s s" and trans: "\<And>a b c. R a b \<Longrightarrow> R b c \<Longrightarrow> R a c"
    and rs: "\<And>a k v s. R s (snd (raw_set a k v s))"
    and rd: "\<And>a k s. R s (snd (raw_delete a k s))"
    and gs: "\<And>t s. R s (snd (getDataNodes t s))"
    and gn: "\<And>t k v s. R s (snd (getDataNode t k v s))"
    and fc: "\<And>a k v s. R s (fire_cell a k v s)"
  shows "R s (snd (setProperty st p v d s))"
  by (rule setProperty_rel_at [of R, OF refl trans rs rd gs gn fc])

lemma protects_setProperty: "protects s (snd (setProperty st p v d s))"
  by (rule setProperty_rel [of protects]) (auto intro: protects_trans)

lemma same_env_setProperty: "same_env s (snd (setProperty st p v d s))"
proof (rule setProperty_rel [of same_env])
  show "\<And>a k v s. same_env s (snd (raw_set a k v s))"
    by (auto simp: same_env_def raw_set_def split: val.splits)
  show "\<And>a k s. same_env s (snd (raw_delete a k s))"
    by (auto simp: same_env_def raw_delete_def)
  show "\<And>t s. same_env s (snd (getDataNodes t s))"
    by (auto simp: same_env_def getDataNodes_def split: option.splits)
  show "\<And>t k v s. same_env s (snd (getDataNode t k v s))"
    by (auto simp: same_env_def getDataNode_def split: option.splits ukey.splits)
  show "\<And>a k v s. same_env s (fire_cell a k v s)"
    by (simp add: same_env_def)
qed (auto simp: same_env_def)

lemma protects_read_cellD: "read_cell a k s = (v, s1) \<Longrightarrow> protects s s1"
  by (metis protects_read_cell snd_conv)

lemma protects_read_value: "read_value t k s = (tr, v, s1) \<Longrightarrow> protects s s1"
  by (auto simp: read_value_def split: if_splits prod.splits dest: protects_read_cellD)

lemma protects_track_read [simp]: "protects s (snd (track_read t k v s))"
proof -
  obtain nd s1 where g: "getDataNode t k v s = (nd, s1)" by (cases "getDataNode t k v s") auto
  then have a: "protects s s1" using protects_getDataNode [of s t k v] by simp
  show ?thesis
  proof (cases nd)
    case (CellNode c)
    with g a show ?thesis
      by (auto simp: track_read_def split: prod.splits dest!: protects_read_cellD intro: protects_trans)
  next
    case (InheritedNode n)
    with g a show ?thesis by (simp add: track_read_def)
  qed
qed

lemma protects_wrap_result [simp]: "protects s (snd (wrap_result w s))"
  by (simp add: wrap_result_def)

lemma protects_proxy_get: "protects s (snd (proxy_get t k rc s))"
proof (cases k)
  case (Key u)
  have "\<And>s1. protects s1 (snd (case read_value t u s1 of (tracked, v, s2) \<Rightarrow>
             if u = Name ''__proto__'' then (Inl Unmodelled, s2)
             else
               andThen (should_track tracked v t u s2, s2) (\<lambda>track s3.
               andThen (if track then track_read t u v s3 else (Inr v, s3)) wrap_result)))"
  proof -
    fix s1
    obtain tr v s2 where r: "read_value t u s1 = (tr, v, s2)" by (cases "read_value t u s1") auto
    then have a: "protects s1 s2" by (rule protects_read_value)
    have "protects s2 (snd (andThen (should_track tr v t u s2, s2) (\<lambda>track s3.
               andThen (if track then track_read t u v s3 else (Inr v, s3)) wrap_result)))"
      by (intro protects_andThen) auto
    with a r show "protects s1 (snd (case read_value t u s1 of (tracked, v, s2) \<Rightarrow>
             if u = Name ''__proto__'' then (Inl Unmodelled, s2)
             else
               andThen (should_track tracked v t u s2, s2) (\<lambda>track s3.
               andThen (if track then track_read t u v s3 else (Inr v, s3)) wrap_result)))"
      by (auto intro: protects_trans)
  qed
  with Key show ?thesis
    by (auto simp: proxy_get_def intro!: protects_andThen)
qed (auto simp: proxy_get_def intro!: protects_andThen)

lemma protects_proxy_deleteProperty: "protects s (snd (proxy_deleteProperty t k s))"
  by (auto simp: proxy_deleteProperty_def split: pkey.splits intro!: protects_andThen protects_setProperty)

text \<open>The engine's check changes nothing: an operation on a view leaves the state of its trap.\<close>

lemma andThen_check:
  "andThen m (\<lambda>x s1. if c x s1 then (Inl e, s1) else (Inr x, s1)) = (r, s') \<Longrightarrow>
     \<exists>r0. m = (r0, s') \<and> (\<forall>y. r = Inr y \<longrightarrow> r0 = Inr y)"
  by (cases m) (auto simp: andThen_def split: sum.splits if_splits)

lemma view_get_trap:
  "view_get t k rcv s = (r, s') \<Longrightarrow>
     \<exists>r0. proxy_get t k rcv s = (r0, s') \<and> (\<forall>y. r = Inr y \<longrightarrow> r0 = Inr y)"
  unfolding view_get_def by (rule andThen_check)

lemma view_delete_trap:
  "view_delete t k s = (r, s') \<Longrightarrow>
     \<exists>r0. proxy_deleteProperty t k s = (r0, s') \<and> (\<forall>y. r = Inr y \<longrightarrow> r0 = Inr y)"
  unfolding view_delete_def by (rule andThen_check)

lemma view_set_trap:
  "view_set fuel t k v s = Some (r, s') \<Longrightarrow>
     \<exists>r0. proxy_set fuel t k v s = Some (r0, s') \<and> (\<forall>y. r = Inr y \<longrightarrow> r0 = Inr y)"
proof -
  assume "view_set fuel t k v s = Some (r, s')"
  then obtain m where m: "proxy_set fuel t k v s = Some m"
    and r: "andThen m (\<lambda>b s1. if rejects_value s1 t k v then (Inl TypeError, s1) else (Inr b, s1)) = (r, s')"
    by (auto simp: view_set_def)
  from andThen_check [OF r] m show ?thesis by auto
qed

text \<open>A relation that the copies and the assignments respect is respected by unwrap.\<close>

lemma unwrap_rel_at:
  assumes refl: "\<And>s. R s s" and trans: "\<And>a b c. R a b \<Longrightarrow> R b c \<Longrightarrow> R a c"
    and al: "\<And>x s. R s (snd (alloc (slice_copy x) s))" "\<And>x s. R s (snd (alloc (assign_copy x) s))"
    and rs: "\<And>a k v s. R s (snd (raw_set a k v s))"
  shows "unwrap n item vis s = Some (v, vis', s') \<Longrightarrow> R s s'"
    and "unwrap_props n b ks vis s = Some (vis', s') \<Longrightarrow> R s s'"
proof (induction n item vis s and n b ks vis s arbitrary: v vis' s' and vis' s' rule: unwrap_unwrap_props.induct)
  case (1 item vis s)
  then show ?case by simp
next
  case (2 n item vis s)
  show ?case
  proof (cases item)
    case (Ref a)
    show ?thesis
    proof (cases "\<not> isWrappable s item \<or> a \<in> set vis")
      case True
      with 2 Ref refl show ?thesis by auto
    next
      case False
      define cp where "cp = (if is_array s a then slice_copy (heap s a) else assign_copy (heap s a))"
      define b where "b = (if frozen (heap s a) then next_addr s else a)"
      define vis1 where "vis1 = (if frozen (heap s a) then vis else a # vis)"
      define s1 where "s1 = (if frozen (heap s a) then snd (alloc cp s) else s)"
      define ks where "ks = (if is_array s a then map Idx [0..<alen (heap s1 b)] else own_keys (props (heap s1 b)))"
      have p1: "R s s1" by (simp add: s1_def cp_def refl al)
      from 2(3) Ref False obtain vis2 s2 where
        u: "unwrap_props n b ks vis1 s1 = Some (vis2, s2)" and s': "s' = s2"
        by (auto simp: b_def vis1_def s1_def ks_def cp_def alloc_def Let_def
            split: if_splits option.splits)
      have "R s1 s2"
      proof (cases "is_array s a")
        case True
        show ?thesis
          using u True False Ref
          by (intro "2.IH"(1) [of  _ "(b, vis1, s1)" b "(vis1, s1)" vis1 s1])
             (auto simp: b_def vis1_def s1_def ks_def cp_def alloc_def)
      next
        case na: False
        show ?thesis
          using u na False Ref
          by (intro "2.IH"(2) [of  _ "(b, vis1, s1)" b "(vis1, s1)" vis1 s1])
             (auto simp: b_def vis1_def s1_def ks_def cp_def alloc_def)
      qed
      with p1 s' show ?thesis by (auto intro: trans)
    qed
  qed (use 2 refl in auto)
next
  case (3 n b vis s)
  then show ?case by (simp add: refl)
next
  case (4 n b k ks vis s)
  from 4(3) obtain u vis1 s1 where
    u: "unwrap n (raw_get s b k) vis s = Some (u, vis1, s1)" and
    r: "unwrap_props n b ks vis1
          (if \<not> strict_eq u (raw_get s b k) then snd (raw_set b k u s1) else s1) = Some (vis', s')"
    by (auto simp: Let_def split: option.splits)
  let ?s2 = "if \<not> strict_eq u (raw_get s b k) then snd (raw_set b k u s1) else s1"
  have a: "R s s1" using u by (rule "4.IH"(1) [OF HOL.refl])
  have b: "R s1 ?s2" by (simp add: refl rs)
  have c: "R ?s2 s'" using u r by (intro "4.IH"(2) [OF HOL.refl]) auto
  from a b c show ?case by (blast intro: trans)
qed

lemma unwrap_rel:
  assumes refl: "\<And>s. R s s" and trans: "\<And>a b c. R a b \<Longrightarrow> R b c \<Longrightarrow> R a c"
    and al: "\<And>ob s. R s (snd (alloc ob s))"
    and rs: "\<And>a k v s. R s (snd (raw_set a k v s))"
  shows "unwrap n item vis s = Some (v, vis', s') \<Longrightarrow> R s s'"
    and "unwrap_props n b ks vis s = Some (vis', s') \<Longrightarrow> R s s'"
  by (rule unwrap_rel_at [of R, OF refl trans al al rs]; assumption)+

lemma protects_unwrap:
  "unwrap n item vis s = Some (v, vis', s') \<Longrightarrow> protects s s'"
  "unwrap_props n b ks vis s = Some (vis', s') \<Longrightarrow> protects s s'"
  by (rule unwrap_rel [of protects]; auto intro: protects_trans)+


lemma protects_proxy_set: "proxy_set fuel t k v s = Some (r, s') \<Longrightarrow> protects s s'"
proof (cases "Writing s")
  case False
  assume "proxy_set fuel t k v s = Some (r, s')"
  with False show ?thesis by (simp add: proxy_set_def)
next
  case True
  assume a: "proxy_set fuel t k v s = Some (r, s')"
  show ?thesis
  proof (cases k)
    case (Key u)
    with a True obtain w vis s1 where
      u: "unwrap fuel v [] s = Some (w, vis, s1)" and
      r: "andThen (setProperty t u w False s1) (\<lambda>x s2. (Inr True, s2)) = (r, s')"
      by (auto simp: proxy_set_def split: option.splits)
    have "protects s s1" using u by (rule protects_unwrap)
    moreover have "protects s1 (snd (andThen (setProperty t u w False s1) (\<lambda>x s2. (Inr True, s2))))"
      by (intro protects_andThen protects_setProperty) simp
    ultimately show ?thesis using r by (auto intro: protects_trans)
  qed (use a True in \<open>auto simp: proxy_set_def\<close>)
qed

lemma protects_perform: "perform fuel act s = Some (r, s') \<Longrightarrow> protects s s'"
proof (cases act)
  case (SetProp p k v)
  assume "perform fuel act s = Some (r, s')"
  with SetProp show ?thesis
    by (auto simp: perform_def dest!: view_set_trap dest: protects_proxy_set)
next
  case (DeleteProp p k)
  assume "perform fuel act s = Some (r, s')"
  with DeleteProp protects_proxy_deleteProperty [of s "proxies s p" k] show ?thesis
    by (auto simp: perform_def split: prod.splits dest!: view_delete_trap)
next
  case (GetProp p k)
  assume "perform fuel act s = Some (r, s')"
  with GetProp protects_proxy_get [of s "proxies s p" k "Prx p"] show ?thesis
    by (auto simp: perform_def split: prod.splits dest!: view_get_trap)
qed

lemma protects_run_actions: "run_actions fuel acts s = Some (r, s') \<Longrightarrow> protects s s'"
proof (induction acts arbitrary: s)
  case Nil
  then show ?case by simp
next
  case (Cons act acts)
  from Cons.prems obtain r1 s1 where p: "perform fuel act s = Some (r1, s1)"
    by (auto split: option.splits)
  then have a: "protects s s1" by (rule protects_perform)
  show ?case
  proof (cases r1)
    case (Inl e)
    with Cons.prems p a show ?thesis by simp
  next
    case (Inr u)
    with Cons.prems p have "run_actions fuel acts s1 = Some (r, s')" by simp
    then have "protects s1 s'" by (rule Cons.IH)
    with a show ?thesis by (rule protects_trans)
  qed
qed

lemma protects_createStore: "createStore fuel v s = Some (r, s') \<Longrightarrow> protects s s'"
  by (auto simp: createStore_def split: option.splits
      dest!: protects_unwrap(1) intro: protects_trans [OF _ protects_wrap])
     (metis protects_trans protects_wrap snd_conv)

lemma protects_Writing [simp]: "protects s (s\<lparr>Writing := b\<rparr>)"
  by (simp add: protects_def)

lemma protects_setStore:
  "setStore view (\<lambda>v. run_actions fuel acts) s = Some (r, s') \<Longrightarrow> protects s s'"
proof -
  assume "setStore view (\<lambda>v. run_actions fuel acts) s = Some (r, s')"
  then obtain s1 where a: "run_actions fuel acts (s\<lparr>Writing := True\<rparr>) = Some (r, s1)"
    and s': "s' = s1\<lparr>Writing := False\<rparr>"
    by (auto simp: setStore_def split: option.splits)
  have "protects s (s\<lparr>Writing := True\<rparr>)" by simp
  moreover have "protects (s\<lparr>Writing := True\<rparr>) s1" using a by (rule protects_run_actions)
  moreover have "protects s1 s'" by (simp add: s')
  ultimately show ?thesis by (blast intro: protects_trans)
qed

lemma wrap_cached: "lookup_proxy (heap s r) = Some p \<Longrightarrow> wrap (Ref r) s = (Inr (Prx p), s)"
  by (simp add: wrap_def)

lemma wrap_Inr_cached:
  "wrap (Ref r) s = (Inr v, s1) \<Longrightarrow> \<exists>p. v = Prx p \<and> lookup_proxy (heap s1 r) = Some p"
  by (auto simp: wrap_def Let_def lookup_proxy_def split: option.splits if_splits)

lemma protects_lookup_proxy:
  "protects s s' \<Longrightarrow> a < next_addr s \<Longrightarrow> lookup_proxy (heap s a) = Some p \<Longrightarrow>
     lookup_proxy (heap s' a) = Some p"
  by (auto simp: protects_def lookup_proxy_def split: option.splits)

lemma cells_wrap [simp]: "cells (snd (wrap v s)) = cells s"
  by (auto simp: wrap_def cells_def fun_eq_iff Let_def split: val.splits option.splits)

lemma fired_wrap [simp]: "fired (snd (wrap v s)) = fired s"
  by (auto simp: wrap_def Let_def split: val.splits option.splits)

lemma CurrentReaction_wrap [simp]: "CurrentReaction (snd (wrap v s)) = CurrentReaction s"
  by (auto simp: wrap_def Let_def split: val.splits option.splits)

lemma cells_getDataNodes [simp]: "cells (snd (getDataNodes t s)) = cells s"
  by (auto simp: getDataNodes_def cells_def fun_eq_iff split: option.splits)

lemma CurrentReaction_getDataNodes [simp]:
  "CurrentReaction (snd (getDataNodes t s)) = CurrentReaction s"
  by (auto simp: getDataNodes_def split: option.splits)

lemma snd_andThen_const [simp]: "snd (andThen m (\<lambda>u s1. (c u, s1))) = snd m"
  by (cases m) (auto simp: andThen_def split: sum.splits)

lemma untracked_get_creates_no_cell:
  assumes "CurrentReaction s = None"
  shows "cells (snd (proxy_get target property receiver s)) = cells s"
proof (cases property)
  case (Key k)
  obtain e s1 where g: "getDataNodes target s = (e, s1)" by (cases "getDataNodes target s") auto
  then have c1: "cells s1 = cells s" and r1: "CurrentReaction s1 = None"
    using cells_getDataNodes [of target s] CurrentReaction_getDataNodes [of target s] assms by auto
  show ?thesis
  proof (cases e)
    case (Inl x)
    with Key g c1 show ?thesis by (simp add: proxy_get_def)
  next
    case (Inr u)
    have "\<exists>v. read_value target k s1 = (cells s1 target k \<noteq> None, v, s1)"
      using r1 by (cases "cells s1 target k") (simp_all add: read_value_def read_cell_def)
    then obtain v where rv: "read_value target k s1 = (cells s1 target k \<noteq> None, v, s1)" ..
    have "cells (snd (wrap_result v s1)) = cells s1" by (simp add: wrap_result_def)
    with Key g Inr rv r1 c1 show ?thesis
      by (simp add: proxy_get_def should_track_def)
  qed
qed (use assms in \<open>simp_all add: proxy_get_def trackSelf_def\<close>)


lemma fire_length_keeps_cell:
  "cells s st k \<noteq> None \<Longrightarrow> cells (snd (fire_length st len s)) st k \<noteq> None"
  using fire_length_observers [of s st k _ len] by auto

lemma fire_self_keeps_cell:
  "cells s st k \<noteq> None \<Longrightarrow> cells (fire_self st s) st k \<noteq> None"
  by (simp add: fire_self_def split: option.splits)

lemma setProperty_creates_cell:
  assumes "setProperty st p v d s = (Inr (), s')"
    and "d \<or> \<not> strict_eq (raw_get s st p) v"
  shows "cells s' st p \<noteq> None \<and> (\<exists>l. fired s' = fired s @ (st, p) # l)"
proof -
  from assms obtain s1 s2 s3 where
    s1: "(if d then raw_delete st p s else raw_set st p v s) = (Inr (), s1)" and
    s2: "getDataNodes st s1 = (Inr (), s2)" and
    s3: "getDataNode st p (raw_get s st p) s2 = (CellNode p, s3)" and
    s': "s' = fire_self st (snd (fire_length st (raw_get s st length_key) (fire_cell st p v s3)))"
    by (rule setProperty_steps)
  let ?s4 = "fire_cell st p v s3"
  let ?s5 = "snd (fire_length st (raw_get s st length_key) ?s4)"
  from s1 have f1: "fired s1 = fired s"
    by (auto dest: raw_set_fields raw_delete_fields split: if_splits)
  from s2 have f2: "fired s2 = fired s1" and n2: "nodes (heap s2 st) \<noteq> None"
    by (auto dest: getDataNodes_cases)
  from s3 have f3: "fired s3 = fired s2" using getDataNode_fired [of st p "raw_get s st p" s2] by simp
  from s3 n2 have c3: "cells s3 st p \<noteq> None" by (rule getDataNode_creates)
  then have f4: "fired ?s4 = fired s @ [(st, p)]"
    by (simp add: fired_fire_cell f3 f2 f1)
  from c3 have c4: "cells ?s4 st p \<noteq> None" by simp
  then have c5: "cells ?s5 st p \<noteq> None" by (rule fire_length_keeps_cell)
  then have c': "cells s' st p \<noteq> None" unfolding s' by (rule fire_self_keeps_cell)
  obtain l where "fired ?s5 = fired ?s4 @ l" using fire_length_fired_prefix by blast
  then have f5: "fired ?s5 = fired s @ (st, p) # l" by (simp only: f4) simp
  have "\<exists>l. fired s' = fired s @ (st, p) # l"
    unfolding s' by (cases "cells ?s5 st self_key") (simp_all add: fire_self_def fired_fire_cell f5)
  with c' show ?thesis by simp
qed

lemmas example_defs = counter_store_def counter_state_def createStore_def init_state_def alloc_def
  new_obj_def empty_obj_def isWrappable_def wrap_def lookup_proxy_def is_array_def own_keys_def
  raw_get_def inherited_names_def strict_eq_def upd_obj_def max_index_def

lemmas model_defs = example_defs enumerated_store_def array_state_def array_store_def
  ownKeys_def trackSelf_def getDataNodes_def getDataNode_def read_cell_def fire_cell_def
  set_cell_def cells_def createDataNode_def setProperty_def andThen_def
  fire_node_def fire_length_def fire_self_def raw_set_def raw_delete_def
  inherited_by_registry_def object_prototype_names_def array_prototype_names_def max_index_def
  keep_below_def proxy_get_def read_value_def should_track_def track_read_def wrap_result_def
  proxy_set_def proxy_deleteProperty_def pop_view_def is_function_def call_hasOwnProperty_def
  view_get_def view_set_def view_delete_def rejects_value_def rejects_delete_def
  has_own_def slice_copy_def assign_copy_def numeral_2_eq_2 Let_def upt_conv_Cons

lemma unwrap_view: "unwrap (Suc n) (Prx p) vis s = Some (Ref (proxies s p), vis, s)"
  by simp

lemma unwrap_after_wrap:
  assumes "\<not> frozen (heap s r)" and "\<forall>p. lookup_proxy (heap s r) = Some p \<longrightarrow> proxies s p = r"
  shows "\<exists>p s1. wrap (Ref r) s = (Inr (Prx p), s1)
           \<and> (\<forall>n vis. unwrap (Suc n) (Prx p) vis s1 = Some (Ref r, vis, s1))"
proof (cases "lookup_proxy (heap s r)")
  case None
  with assms(1) show ?thesis by (simp add: wrap_def Let_def)
next
  case (Some p)
  with assms(2) show ?thesis by (simp add: wrap_def)
qed

lemma unwrap_raw_result:
  assumes "unwrap n item vis s = Some (v, vis', s')" and "\<forall>p. item \<noteq> Prx p"
  shows "v = (case item of
                Ref a \<Rightarrow> if frozen (heap s a) \<and> isWrappable s item \<and> a \<notin> set vis
                         then Ref (next_addr s) else item
              | _ \<Rightarrow> item)"
proof (cases n)
  case 0
  with assms show ?thesis by simp
next
  case (Suc m)
  show ?thesis
  proof (cases item)
    case (Ref a)
    with assms(1) Suc show ?thesis
      by (auto simp: alloc_def Let_def split: if_splits option.splits)
  qed (use assms Suc in auto)
qed

lemma frozen_cycle_diverges:
  "heap s 0 = new_obj PlainObject [(Name ''self'', Ref 0)] 0 True \<Longrightarrow> 0 < next_addr s \<Longrightarrow>
     0 \<notin> set vis \<Longrightarrow> unwrap n (Ref 0) vis s = None"
proof (induction n arbitrary: s vis)
  case 0
  show ?case by simp
next
  case (Suc n)
  let ?s1 = "snd (alloc (assign_copy (heap s 0)) s)"
  have h: "heap ?s1 0 = new_obj PlainObject [(Name ''self'', Ref 0)] 0 True" and n: "0 < next_addr ?s1"
    using Suc.prems by (auto simp: alloc_def)
  have "unwrap n (Ref 0) vis ?s1 = None" using h n Suc.prems(3) by (rule Suc.IH)
  moreover have "raw_get ?s1 (next_addr s) (Name ''self'') = Ref 0"
    using Suc.prems
    by (simp add: alloc_def raw_get_def is_array_def assign_copy_def new_obj_def empty_obj_def own_keys_def)
  ultimately have "unwrap_props n (next_addr s) [Name ''self''] vis ?s1 = None"
    by (simp add: Let_def)
  moreover have "own_keys (props (heap ?s1 (next_addr s))) = [Name ''self'']"
    using Suc.prems by (simp add: alloc_def assign_copy_def new_obj_def empty_obj_def own_keys_def)
  ultimately show ?case
    using Suc.prems
    by (simp add: isWrappable_def is_array_def new_obj_def empty_obj_def alloc_def Let_def)
qed

lemma unwrap_never_returns_on_frozen_cycle: "unwrap n (Ref 1) [] frozen_cycle_state = None"
proof (cases n)
  case 0
  then show ?thesis by simp
next
  case (Suc m)
  have "unwrap m (Ref 0) [1] frozen_cycle_state = None"
    by (rule frozen_cycle_diverges) (simp_all add: frozen_cycle_state_def model_defs)
  moreover have "raw_get frozen_cycle_state 1 (Name ''x'') = Ref 0"
    by (simp add: frozen_cycle_state_def model_defs)
  ultimately have "unwrap_props m 1 [Name ''x''] [1] frozen_cycle_state = None"
    by (simp add: Let_def)
  moreover have "own_keys (props (heap frozen_cycle_state 1)) = [Name ''x'']"
    and "\<not> frozen (heap frozen_cycle_state 1)" and "\<not> is_array frozen_cycle_state 1"
    and "isWrappable frozen_cycle_state (Ref 1)"
    by (simp_all add: frozen_cycle_state_def model_defs)
  ultimately show ?thesis using Suc by simp
qed

lemma same_views_unwrap:
  "unwrap n item vis s = Some (v, vis', s') \<Longrightarrow> same_views s s'"
proof (rule unwrap_rel(1) [of same_views])
  show "\<And>a b c. same_views a b \<Longrightarrow> same_views b c \<Longrightarrow> same_views a c"
    by (auto simp: same_views_def)
  show "\<And>ob s. same_views s (snd (alloc ob s))"
    by (auto simp: same_views_def alloc_def)
  show "\<And>a k v s. same_views s (snd (raw_set a k v s))"
    by (auto simp: same_views_def raw_set_def split: val.splits)
qed (auto simp: same_views_def)

lemma same_views_unwrap_props:
  "unwrap_props n b ks vis s = Some (vis', s') \<Longrightarrow> same_views s s'"
proof (rule unwrap_rel(2) [of same_views])
  show "\<And>a b c. same_views a b \<Longrightarrow> same_views b c \<Longrightarrow> same_views a c"
    by (auto simp: same_views_def)
  show "\<And>ob s. same_views s (snd (alloc ob s))"
    by (auto simp: same_views_def alloc_def)
  show "\<And>a k v s. same_views s (snd (raw_set a k v s))"
    by (auto simp: same_views_def raw_set_def split: val.splits)
qed (auto simp: same_views_def)

lemma protects_untouched:
  "protects s s' \<Longrightarrow> frozen (heap s a) \<Longrightarrow> a < next_addr s \<Longrightarrow> untouched a s s'"
  by (simp add: protects_def untouched_def)

text \<open>unwrap of a frozen aggregate: the copy is new, not frozen and has no view.\<close>

lemma unwrap_frozen:
  assumes "unwrap fuel (Ref a) [] s = Some (v, vis, s')"
    and "frozen (heap s a)" and "isWrappable s (Ref a)"
  shows "v = Ref (next_addr s) \<and> \<not> frozen (heap s' (next_addr s))
           \<and> lookup_proxy (heap s' (next_addr s)) = None \<and> protects s s'"
proof -
  obtain n where fuel: "fuel = Suc n" using assms(1) by (cases fuel) auto
  define cp where "cp = (if is_array s a then slice_copy (heap s a) else assign_copy (heap s a))"
  define s1 where "s1 = snd (alloc cp s)"
  define ks where "ks = (if is_array s a then map Idx [0..<alen (heap s1 (next_addr s))]
                         else own_keys (props (heap s1 (next_addr s))))"
  from assms fuel have v: "v = Ref (next_addr s)"
    and u: "unwrap_props n (next_addr s) ks [] s1 = Some (vis, s')"
    by (auto simp: cp_def s1_def ks_def alloc_def Let_def split: if_splits option.splits)
  have h: "\<not> frozen (heap s1 (next_addr s))" "proxy (heap s1 (next_addr s)) = None"
    "proto_proxy (heap s1 (next_addr s)) = None" "next_addr s < next_addr s1"
    by (auto simp: s1_def cp_def alloc_def slice_copy_def assign_copy_def empty_obj_def)
  from u have p1: "protects s1 s'" by (rule protects_unwrap)
  with h have f: "\<not> frozen (heap s' (next_addr s))" by (auto simp: protects_def)
  from u have "same_views s1 s'" by (rule same_views_unwrap_props)
  with h have "proxy (heap s' (next_addr s)) = None" by (auto simp: same_views_def)
  moreover from p1 h have "proto_proxy (heap s' (next_addr s)) = None" by (auto simp: protects_def)
  ultimately have p: "lookup_proxy (heap s' (next_addr s)) = None" by (simp add: lookup_proxy_def)
  from assms(1) have "protects s s'" by (rule protects_unwrap)
  with v f p show ?thesis by simp
qed

lemma createStore_frozen:
  assumes "frozen (heap s a)" and "a < next_addr s" and "isWrappable s (Ref a)"
    and "createStore fuel (Ref a) s = Some (r, s1)"
  shows "\<exists>p. r = Inr (Prx p) \<and> proxies s1 p = next_addr s \<and> proxies s1 p \<noteq> a
           \<and> \<not> frozen (heap s1 (proxies s1 p)) \<and> untouched a s s1"
proof -
  from assms(4) obtain v vis s' where
    u: "unwrap fuel (Ref a) [] s = Some (v, vis, s')" and w: "wrap v s' = (r, s1)"
    by (auto simp: createStore_def split: option.splits)
  from unwrap_frozen [OF u assms(1,3)] have v: "v = Ref (next_addr s)"
    and f: "\<not> frozen (heap s' (next_addr s))" and p: "lookup_proxy (heap s' (next_addr s)) = None"
    by simp_all
  from w v f p have "r = Inr (Prx (next_pid s'))" "proxies s1 (next_pid s') = next_addr s"
    "\<not> frozen (heap s1 (next_addr s))"
    by (auto simp: wrap_def Let_def)
  moreover have "untouched a s s1"
    using protects_createStore [OF assms(4)] assms(1,2) by (rule protects_untouched)
  ultimately show ?thesis using assms(2) by auto
qed

lemma getDataNodes_ok: "\<not> frozen (heap s t) \<Longrightarrow> fst (getDataNodes t s) = Inr ()"
  by (simp add: getDataNodes_def split: option.splits)

lemma raw_op_ok:
  "\<not> frozen (heap s t) \<Longrightarrow> \<not> (is_array s t \<and> k = length_key) \<Longrightarrow>
     fst (if d then raw_delete t k s else raw_set t k v s) = Inr ()"
  by (auto simp: raw_set_def raw_delete_def)

lemma shape_setProperty:
  "kind (heap (snd (setProperty st p v d s)) b) = kind (heap s b)
   \<and> frozen (heap (snd (setProperty st p v d s)) b) = frozen (heap s b)"
proof -
  let ?R = "\<lambda>s s'. \<forall>b. kind (heap s' b) = kind (heap s b) \<and> frozen (heap s' b) = frozen (heap s b)"
  have "?R s (snd (setProperty st p v d s))"
  proof (rule setProperty_rel [of ?R])
    show "\<And>a k v s. ?R s (snd (raw_set a k v s))"
      by (auto simp: raw_set_def split: val.splits)
    show "\<And>a k s. ?R s (snd (raw_delete a k s))"
      by (auto simp: raw_delete_def)
    show "\<And>t s. ?R s (snd (getDataNodes t s))"
      by (simp add: getDataNodes_heap)
  qed auto
  then show ?thesis by simp
qed

lemma setProperty_succeeds:
  assumes "\<not> frozen (heap s t)" and "plain_key (is_array s t) k"
  shows "fst (setProperty t k v d s) = Inr ()"
proof (cases "\<not> d \<and> strict_eq (raw_get s t k) v")
  case True
  then show ?thesis by (simp add: setProperty_def)
next
  case False
  from assms(2) have np: "k \<noteq> Name ''__proto__''" and ni: "\<not> inherited_by_registry k"
    and nl: "\<not> (is_array s t \<and> k = length_key)"
    by (auto simp: plain_key_def inherited_by_registry_def object_prototype_names_def)
  obtain s1 where s1: "(if d then raw_delete t k s else raw_set t k v s) = (Inr (), s1)"
    using raw_op_ok [OF assms(1) nl, of d v] by (metis (full_types) old.unit.exhaust prod.collapse)
  then have f1: "\<not> frozen (heap s1 t)"
    using assms(1) by (auto dest: raw_set_fields raw_delete_fields split: if_splits)
  obtain s2 where s2: "getDataNodes t s1 = (Inr (), s2)"
    using getDataNodes_ok [OF f1] by (metis (full_types) old.unit.exhaust prod.collapse)
  obtain nd s3 where s3: "getDataNode t k (raw_get s t k) s2 = (nd, s3)"
    by (cases "getDataNode t k (raw_get s t k) s2") auto
  with ni have nd: "nd = CellNode k"
    by (auto simp: getDataNode_def split: option.splits ukey.splits if_splits)
  from False np s1 s2 s3 nd show ?thesis
    by (simp add: setProperty_def Let_def fire_node_def fire_length_eq)
qed

lemma setProperty_length_change:
  assumes "setProperty st p v d s = (Inr (), s')"
    and "is_array s st"
    and "alen (heap s' st) \<noteq> alen (heap s st)"
  shows "cells s' st length_key \<noteq> None
           \<and> (\<exists>l. fired s' = fired s @ [(st, p), (st, length_key)] @ l)"
proof -
  have ne: "d \<or> \<not> strict_eq (raw_get s st p) v"
  proof (rule ccontr)
    assume "\<not> ?thesis"
    with assms(1) have "s' = s" by (simp add: setProperty_def)
    with assms(3) show False by simp
  qed
  from assms(1) ne obtain s1 s2 s3 where
    s1: "(if d then raw_delete st p s else raw_set st p v s) = (Inr (), s1)" and
    s2: "getDataNodes st s1 = (Inr (), s2)" and
    s3: "getDataNode st p (raw_get s st p) s2 = (CellNode p, s3)" and
    s': "s' = fire_self st (snd (fire_length st (raw_get s st length_key) (fire_cell st p v s3)))"
    by (rule setProperty_steps)
  let ?s4 = "fire_cell st p v s3"
  let ?t = "snd (getDataNode st length_key (raw_get s st length_key) ?s4)"
  from s1 have f1: "fired s1 = fired s" and k1: "kind (heap s1 st) = kind (heap s st)"
    by (auto dest: raw_set_fields raw_delete_fields split: if_splits)
  from s2 have f2: "fired s2 = fired s1" and n2: "nodes (heap s2 st) \<noteq> None"
    by (auto dest: getDataNodes_cases)
  from s3 have f3: "fired s3 = fired s2" using getDataNode_fired [of st p "raw_get s st p" s2] by simp
  from s3 n2 have n3: "nodes (heap s3 st) \<noteq> None"
    using nodes_getDataNode_None [of st p "raw_get s st p" s2 st] by simp
  have h2: "kind (heap s2 st) = kind (heap s1 st)" "alen (heap s2 st) = alen (heap s1 st)"
    using getDataNodes_heap [of st s1 st] s2 by simp_all
  have h3: "kind (heap s3 st) = kind (heap s2 st)" "alen (heap s3 st) = alen (heap s2 st)"
    using getDataNode_heap [of st p "raw_get s st p" s2 st] s3 by simp_all
  have arr4: "is_array ?s4 st" using assms(2) k1 h2 h3 by (simp add: is_array_def)
  have "alen (heap s' st) = alen (heap ?s4 st)" by (simp add: s')
  with assms(3) have changed: "alen (heap ?s4 st) \<noteq> alen (heap s st)" by simp
  with arr4 assms(2) have test: "\<not> strict_eq (raw_get ?s4 st length_key) (raw_get s st length_key)"
    by (simp add: raw_get_length)
  from arr4 test
  have s5: "snd (fire_length st (raw_get s st length_key) ?s4) = fire_cell st length_key (raw_get ?s4 st length_key) ?t"
    by (simp only: fire_length_eq snd_conv if_True simp_thms)
  have lc: "cells ?t st length_key \<noteq> None"
  proof (rule getDataNode_creates)
    show "getDataNode st length_key (raw_get s st length_key) ?s4 = (CellNode length_key, ?t)"
      by (rule getDataNode_length)
    show "nodes (heap ?s4 st) \<noteq> None" using n3 by simp
  qed
  from s3 n2 have "cells s3 st p \<noteq> None" by (rule getDataNode_creates)
  then have f4: "fired ?s4 = fired s @ [(st, p)]"
    by (simp add: fired_fire_cell f3 f2 f1)
  have f5: "fired (fire_cell st length_key (raw_get ?s4 st length_key) ?t) = fired s @ [(st, p), (st, length_key)]"
    using lc f4 by (simp add: fired_fire_cell)
  have c5: "cells (fire_cell st length_key (raw_get ?s4 st length_key) ?t) st length_key \<noteq> None"
    using lc by simp
  have "cells s' st length_key \<noteq> None"
    unfolding s' s5 using c5 by (simp add: fire_self_def split: option.splits)
  moreover have "\<exists>l. fired s' = fired s @ [(st, p), (st, length_key)] @ l"
    unfolding s' s5 using f5 by (simp add: fire_self_def fired_fire_cell split: option.splits)
  ultimately show ?thesis by simp
qed

text \<open>A relation that the steps of a read respect is respected by the get trap.\<close>

lemma proxy_get_rel_at:
  assumes refl: "\<And>s. R s s" and trans: "\<And>a b c. R a b \<Longrightarrow> R b c \<Longrightarrow> R a c"
    and gs: "\<And>s. R s (snd (getDataNodes t s))"
    and gn: "\<And>u v s. k = Key u \<Longrightarrow> R s (snd (getDataNode t u v s))"
    and rc: "\<And>u s. R s (snd (read_cell t u s))"
    and sc: "\<And>c s. k = TRACK \<Longrightarrow> R s (set_cell t self_key c s)"
    and wr: "\<And>v s. R s (snd (wrap v s))"
  shows "R s (snd (proxy_get t k rcv s))"
proof -
  have wres: "\<And>w s. R s (snd (wrap_result w s))"
    by (simp add: wrap_result_def refl wr)
  show ?thesis
  proof (cases k)
    case (Key u)
    have tr: "\<And>v s. R s (snd (track_read t u v s))"
    proof -
      fix v s
      obtain nd s1 where g: "getDataNode t u v s = (nd, s1)" by (cases "getDataNode t u v s") auto
      then have a: "R s s1" using gn [OF Key, of s v] by simp
      show "R s (snd (track_read t u v s))"
      proof (cases nd)
        case (CellNode c)
        have "R s (snd (read_cell t c s1))" using a rc by (rule trans)
        with g CellNode show ?thesis by (auto simp: track_read_def split: prod.splits)
      next
        case (InheritedNode n)
        with g a show ?thesis by (simp add: track_read_def)
      qed
    qed
    have body: "\<And>s1. R s1 (snd (case read_value t u s1 of (tracked, v, s2) \<Rightarrow>
             if u = Name ''__proto__'' then (Inl Unmodelled, s2)
             else
               andThen (should_track tracked v t u s2, s2) (\<lambda>track s3.
               andThen (if track then track_read t u v s3 else (Inr v, s3)) wrap_result)))"
    proof -
      fix s1
      obtain tk v s2 where r: "read_value t u s1 = (tk, v, s2)" by (cases "read_value t u s1") auto
      then have a: "R s1 s2"
        using rc [of s1 u] by (auto simp: read_value_def refl split: if_splits prod.splits)
      have "R s2 (snd (andThen (should_track tk v t u s2, s2) (\<lambda>track s3.
               andThen (if track then track_read t u v s3 else (Inr v, s3)) wrap_result)))"
        by (intro andThen_rel [of R]) (simp_all add: refl tr wres, (erule (1) trans)+)
      with a have "R s1 (snd (andThen (should_track tk v t u s2, s2) (\<lambda>track s3.
               andThen (if track then track_read t u v s3 else (Inr v, s3)) wrap_result)))"
        by (rule trans)
      with a r show "R s1 (snd (case read_value t u s1 of (tracked, v, s2) \<Rightarrow>
             if u = Name ''__proto__'' then (Inl Unmodelled, s2)
             else
               andThen (should_track tracked v t u s2, s2) (\<lambda>track s3.
               andThen (if track then track_read t u v s3 else (Inr v, s3)) wrap_result)))"
        by simp
    qed
    have "R s (snd (andThen (getDataNodes t s) (\<lambda>u' s1. case read_value t u s1 of (tracked, v, s2) \<Rightarrow>
             if u = Name ''__proto__'' then (Inl Unmodelled, s2)
             else
               andThen (should_track tracked v t u s2, s2) (\<lambda>track s3.
               andThen (if track then track_read t u v s3 else (Inr v, s3)) wrap_result))))"
      by (rule andThen_rel [of R, OF gs body trans])
    with Key show ?thesis by (simp add: proxy_get_def)
  next
    case TRACK
    have ts: "R s (snd (trackSelf t s))"
    proof (cases "CurrentReaction s")
      case None
      then show ?thesis by (simp add: trackSelf_def refl)
    next
      case (Some r)
      obtain e s1 where g: "getDataNodes t s = (e, s1)" by (cases "getDataNodes t s") auto
      then have a: "R s s1" using gs [of s] by simp
      let ?s2 = "case cells s1 t self_key of Some c \<Rightarrow> s1
                  | None \<Rightarrow> set_cell t self_key (createDataNode Undefined) s1"
      have "R s1 ?s2" by (simp add: refl sc [OF TRACK] split: option.splits)
      with a have "R s ?s2" by (rule trans)
      then have "R s (snd (read_cell t self_key ?s2))" using rc by (rule trans)
      with Some g a show ?thesis by (cases e) (simp_all add: trackSelf_def Let_def)
    qed
    with TRACK show ?thesis by (simp add: proxy_get_def)
  next
    case NODE
    with gs show ?thesis by (simp add: proxy_get_def)
  qed (simp_all add: proxy_get_def refl)
qed

lemma proxy_get_rel:
  assumes refl: "\<And>s. R s s" and trans: "\<And>a b c. R a b \<Longrightarrow> R b c \<Longrightarrow> R a c"
    and gs: "\<And>t s. R s (snd (getDataNodes t s))"
    and gn: "\<And>t k v s. R s (snd (getDataNode t k v s))"
    and rc: "\<And>t k s. R s (snd (read_cell t k s))"
    and sc: "\<And>t k c s. R s (set_cell t k c s)"
    and wr: "\<And>v s. R s (snd (wrap v s))"
  shows "R s (snd (proxy_get t k rcv s))"
  by (rule proxy_get_rel_at [of R, OF refl trans gs gn rc sc wr])

lemma keeps_data_proxy_get: "keeps_data s (snd (proxy_get t k rcv s))"
proof (rule proxy_get_rel [of keeps_data])
  show "\<And>t s. keeps_data s (snd (getDataNodes t s))"
    by (auto simp: keeps_data_def getDataNodes_def split: option.splits)
  show "\<And>t k v s. keeps_data s (snd (getDataNode t k v s))"
    by (auto simp: keeps_data_def getDataNode_def split: option.splits ukey.splits)
  show "\<And>t k s. keeps_data s (snd (read_cell t k s))"
    by (auto simp: keeps_data_def read_cell_def split: option.splits)
  show "\<And>t k c s. keeps_data s (set_cell t k c s)"
    by (simp add: keeps_data_def)
  show "\<And>v s. keeps_data s (snd (wrap v s))"
    by (auto simp: keeps_data_def wrap_def Let_def split: val.splits option.splits)
qed (auto simp: keeps_data_def)

lemma read_cell_value:
  "cells s t k = Some c \<Longrightarrow> fst (read_cell t k s) = payload c"
  by (simp add: read_cell_def)

lemma track_read_value:
  assumes "cells s t k = None" and "nodes (heap s t) \<noteq> None" and "\<not> inherited_by_registry k"
  shows "fst (track_read t k v s) = Inr v"
proof -
  from assms have g: "getDataNode t k v s = (CellNode k, set_cell t k (createDataNode v) s)"
    by (auto simp: getDataNode_def split: ukey.splits)
  have "cells (set_cell t k (createDataNode v) s) t k = Some (createDataNode v)"
    using assms(2) by simp
  then have "fst (read_cell t k (set_cell t k (createDataNode v) s)) = v"
    by (simp add: read_cell_value createDataNode_def)
  with g show ?thesis by (auto simp: track_read_def split: prod.splits)
qed

lemma proxy_get_length:
  assumes arr: "is_array s t"
    and sync: "\<forall>c. cells s t length_key = Some c \<longrightarrow> payload c = Num (int (alen (heap s t)))"
    and get: "proxy_get t (Key length_key) rcv s = (Inr w, s1)"
  shows "w = Num (int (alen (heap s t)))"
proof -
  let ?n = "Num (int (alen (heap s t)))"
  from get obtain s0 where g: "getDataNodes t s = (Inr (), s0)"
    and rest: "(case read_value t length_key s0 of (tracked, v, s2) \<Rightarrow>
               andThen (should_track tracked v t length_key s2, s2) (\<lambda>track s3.
               andThen (if track then track_read t length_key v s3 else (Inr v, s3)) wrap_result))
             = (Inr w, s1)"
    by (auto simp: proxy_get_def andThen_Inr)
  from g have c0: "cells s0 = cells s" and n0: "nodes (heap s0 t) \<noteq> None"
    by (auto dest: getDataNodes_cases)
  have h0: "raw_get s0 t length_key = ?n"
    using g arr getDataNodes_heap [of t s t] by (simp add: raw_get_def is_array_def)
  obtain tk v s2 where rv: "read_value t length_key s0 = (tk, v, s2)"
    by (cases "read_value t length_key s0") auto
  have v: "v = ?n" and tk: "tk \<longleftrightarrow> cells s0 t length_key \<noteq> None" and s2: "\<not> tk \<longrightarrow> s2 = s0"
    using rv sync c0 h0 read_cell_value [of s0 t length_key]
    by (auto simp: read_value_def split: if_splits prod.splits)
  have wn: "\<And>s'. wrap_result ?n s' = (Inr ?n, s')"
    by (simp add: wrap_result_def isWrappable_def)
  show ?thesis
  proof (cases "tk \<or> CurrentReaction s2 = None")
    case True
    with rest rv v show ?thesis by (simp add: should_track_def wn)
  next
    case False
    then have st: "should_track tk v t length_key s2 = Inr True"
      using v by (simp add: should_track_def is_function_def)
    from False tk s2 have "cells s2 t length_key = None" "nodes (heap s2 t) \<noteq> None"
      using n0 by auto
    then have "fst (track_read t length_key v s2) = Inr v"
      by (rule track_read_value)
         (simp add: inherited_by_registry_def object_prototype_names_def)
    then obtain s3 where "track_read t length_key v s2 = (Inr v, s3)"
      by (cases "track_read t length_key v s2") auto
    with rest rv st v show ?thesis by (simp add: wn)
  qed
qed

lemma setProperty_delete_alen:
  "alen (heap (snd (setProperty t k v True s)) b) = alen (heap s b)"
proof -
  let ?R = "\<lambda>s s'. \<forall>b. alen (heap s' b) = alen (heap s b)"
  have rd: "\<And>a k s. ?R s (snd (raw_delete a k s))"
    by (auto simp: raw_delete_def)
  have gs: "\<And>t s. ?R s (snd (getDataNodes t s))" by (simp add: getDataNodes_heap)
  have "?R s (snd (setProperty t k v True s))"
  proof (cases "k = Name ''__proto__''")
    case True
    then show ?thesis by (simp add: setProperty_def)
  next
    case False
    have a: "\<And>s2. ?R s2 (snd (case getDataNode t k (raw_get s t k) s2 of (nd, s3) \<Rightarrow> fire_node t nd v s3))"
      by (auto simp: fire_node_def split: prod.splits node.splits)
         (metis getDataNode_heap(3) snd_conv)+
    have "?R s (snd (andThen (raw_delete t k s) (\<lambda>u s1.
           andThen (getDataNodes t s1) (\<lambda>u s2.
           andThen (case getDataNode t k (raw_get s t k) s2 of (nd, s3) \<Rightarrow> fire_node t nd v s3) (\<lambda>u s4.
           andThen (fire_length t (raw_get s t length_key) s4) (\<lambda>u s5.
           (Inr (), fire_self t s5)))))))"
      by (intro andThen_rel [of ?R] rd gs a) simp_all
    with False show ?thesis by (simp add: setProperty_def Let_def)
  qed
  then show ?thesis by simp
qed

lemma cells_kept_setProperty:
  "cells s a k \<noteq> None \<Longrightarrow> cells (snd (setProperty st p v d s)) a k \<noteq> None"
proof -
  let ?R = "\<lambda>s s'. \<forall>a k. cells s a k \<noteq> None \<longrightarrow> cells s' a k \<noteq> None"
  have "?R s (snd (setProperty st p v d s))"
  proof (rule setProperty_rel [of ?R])
    show "\<And>a k v s. ?R s (snd (raw_set a k v s))"
      by (metis raw_set_fields prod.collapse)
    show "\<And>a k s. ?R s (snd (raw_delete a k s))"
      by (metis raw_delete_fields prod.collapse)
    show "\<And>t s. ?R s (snd (getDataNodes t s))" by simp
    show "\<And>t k v s. ?R s (snd (getDataNode t k v s))"
      by (simp add: getDataNode_keeps)
    show "\<And>a k v s. ?R s (fire_cell a k v s)" by simp
  qed auto
  then show "cells s a k \<noteq> None \<Longrightarrow> cells (snd (setProperty st p v d s)) a k \<noteq> None"
    by blast
qed

lemma setProperty_set_length:
  assumes "setProperty t length_key (Num n) False s = (Inr (), s')" and "is_array s t"
    and "\<not> strict_eq (raw_get s t length_key) (Num n)"
  shows "alen (heap s' t) = nat n"
proof -
  show ?thesis
  proof (rule setProperty_steps [OF assms(1) disjI2 [OF assms(3)]])
    fix s1 s2 s3
    assume s1: "(if False then raw_delete t length_key s else raw_set t length_key (Num n) s) = (Inr (), s1)"
      and s2: "getDataNodes t s1 = (Inr (), s2)"
      and s3: "getDataNode t length_key (raw_get s t length_key) s2 = (CellNode length_key, s3)"
      and s': "s' = fire_self t (snd (fire_length t (raw_get s t length_key) (fire_cell t length_key (Num n) s3)))"
    from s1 assms(2) have "alen (heap s1 t) = nat n"
      by (auto simp: raw_set_def split: if_splits)
    moreover have "alen (heap s2 t) = alen (heap s1 t)"
      using getDataNodes_heap(3) [of t s1 t] s2 by simp
    moreover have "alen (heap s3 t) = alen (heap s2 t)"
      using getDataNode_heap(3) [of t length_key "raw_get s t length_key" s2 t] s3 by simp
    ultimately show ?thesis by (simp add: s')
  qed
qed

lemma pop_fires_index_and_length:
  assumes w: "Writing s" and arr: "is_array s (proxies s p)"
    and len: "alen (heap s (proxies s p)) = Suc i"
    and sync: "\<forall>c. cells s (proxies s p) length_key = Some c \<longrightarrow> payload c = Num (int (Suc i))"
    and pop: "pop_view fuel p s = Some (Inr v, s')"
  shows "alen (heap s' (proxies s p)) = i
     \<and> cells s' (proxies s p) (Idx i) \<noteq> None \<and> cells s' (proxies s p) length_key \<noteq> None
     \<and> (\<exists>l1 l2. fired s' = fired s @ (proxies s p, Idx i) # l1 @ (proxies s p, length_key) # l2)"
proof -
  let ?t = "proxies s p"
  obtain r1 s1 where g1: "view_get ?t (Key length_key) (Prx p) s = (r1, s1)"
    by (cases "view_get ?t (Key length_key) (Prx p) s") auto
  with pop obtain lenv where r1: "r1 = Inr lenv"
    by (cases r1) (auto simp: pop_view_def Let_def)
  from view_get_trap [OF g1] r1 have t1: "proxy_get ?t (Key length_key) (Prx p) s = (Inr lenv, s1)"
    by auto
  have lenv: "lenv = Num (int (Suc i))"
    using proxy_get_length [OF arr _ t1] sync len by simp
  have k1: "keeps_data s s1" using keeps_data_proxy_get [of s ?t "Key length_key" "Prx p"] t1 by simp
  have ar: "nat (1 + int i) - Suc 0 = i" "nat (1 + int i) - 1 = i" "1 + int i - 1 = int i"
    "\<not> 1 + int i \<le> 0"
    by simp_all
  have pv: "pop_view fuel p s =
      (case view_get ?t (Key (Idx i)) (Prx p) s1 of
          (Inl e, s2) \<Rightarrow> Some (Inl e, s2)
        | (Inr element, s2) \<Rightarrow>
      (case view_delete ?t (Key (Idx i)) s2 of
          (Inl e, s3) \<Rightarrow> Some (Inl e, s3)
        | (Inr b, s3) \<Rightarrow>
      (case view_set fuel ?t (Key length_key) (Num (int i)) s3 of
          None \<Rightarrow> None
        | Some (Inl e, s4) \<Rightarrow> Some (Inl e, s4)
        | Some (Inr b, s4) \<Rightarrow> Some (Inr element, s4))))"
    using g1 r1 lenv
    by (simp add: pop_view_def Let_def ar cong: prod.case_cong sum.case_cong option.case_cong)
  obtain r2 s2 where v2: "view_get ?t (Key (Idx i)) (Prx p) s1 = (r2, s2)"
    by (cases "view_get ?t (Key (Idx i)) (Prx p) s1") auto
  from view_get_trap [OF v2] obtain r2' where g2: "proxy_get ?t (Key (Idx i)) (Prx p) s1 = (r2', s2)"
    by auto
  have k2: "keeps_data s1 s2" using keeps_data_proxy_get [of s1 ?t "Key (Idx i)" "Prx p"] g2 by simp
  from pop pv v2 obtain el where r2: "r2 = Inr el"
    by (cases r2) auto
  obtain r3 s3 where v3: "view_delete ?t (Key (Idx i)) s2 = (r3, s3)"
    by (cases "view_delete ?t (Key (Idx i)) s2") auto
  from pop pv v2 r2 v3 obtain b where r3: "r3 = Inr b"
    by (cases r3) auto
  from view_delete_trap [OF v3] r3 have g3: "proxy_deleteProperty ?t (Key (Idx i)) s2 = (r3, s3)"
    by auto
  from pop pv v2 r2 v3 r3 obtain b' where
    v4: "view_set fuel ?t (Key length_key) (Num (int i)) s3 = Some (Inr b', s')"
    by (auto split: option.splits sum.splits)
  from view_set_trap [OF v4] have
    g4: "proxy_set fuel ?t (Key length_key) (Num (int i)) s3 = Some (Inr b', s')"
    by auto
  from k1 k2 w arr len have w2: "Writing s2" and arr2: "is_array s2 ?t"
    and len2: "alen (heap s2 ?t) = Suc i" and f2: "fired s2 = fired s"
    by (auto simp: keeps_data_def is_array_def)
  from g3 r3 w2 have d: "setProperty ?t (Idx i) Undefined True s2 = (Inr (), s3)"
    by (auto simp: proxy_deleteProperty_def andThen_Inr)
  from setProperty_creates_cell [OF d] obtain l1 where
    c3: "cells s3 ?t (Idx i) \<noteq> None" and f3: "fired s3 = fired s2 @ (?t, Idx i) # l1"
    by auto
  have len3: "alen (heap s3 ?t) = Suc i"
    using setProperty_delete_alen [of ?t "Idx i" Undefined s2 ?t] d len2 by simp
  have arr3: "is_array s3 ?t"
    using shape_setProperty [of ?t "Idx i" Undefined True s2 ?t] d arr2 by (simp add: is_array_def)
  have w3: "Writing s3"
    using same_env_setProperty [of s2 ?t "Idx i" Undefined True] d w2 by (simp add: same_env_def)
  from g4 w3 obtain n where fuel: "fuel = Suc n"
    by (cases fuel) (auto simp: proxy_set_def)
  from g4 w3 fuel have e: "setProperty ?t length_key (Num (int i)) False s3 = (Inr (), s')"
    by (auto simp: proxy_set_def andThen_Inr)
  have ne: "\<not> strict_eq (raw_get s3 ?t length_key) (Num (int i))"
    using arr3 len3 by (simp add: raw_get_length)
  have len': "alen (heap s' ?t) = i"
    using setProperty_set_length [OF e arr3 ne] by simp
  then have "alen (heap s' ?t) \<noteq> alen (heap s3 ?t)" using len3 by simp
  from setProperty_length_change [OF e arr3 this] obtain l2 where
    c': "cells s' ?t length_key \<noteq> None"
    and f': "fired s' = fired s3 @ [(?t, length_key), (?t, length_key)] @ l2"
    by auto
  have ci: "cells s' ?t (Idx i) \<noteq> None"
    using cells_kept_setProperty [OF c3, of ?t length_key "Num (int i)" False] e by simp
  have "fired s' = fired s @ (?t, Idx i) # l1 @ (?t, length_key) # ((?t, length_key) # l2)"
    by (simp add: f' f3 f2)
  with len' ci c' show ?thesis by blast
qed

subsection \<open>Termination of unwrap\<close>

lemma set_index_keys:
  "set (concat (map (\<lambda>(k, v). case k of Idx i \<Rightarrow> if i < m then [i] else [] | Name _ \<Rightarrow> []) ps))
     = {i. Idx i \<in> fst ` set ps \<and> i < m}"
proof (induction ps)
  case Nil
  show ?case by simp
next
  case (Cons p ps)
  obtain k v where p: "p = (k, v)" by (cases p)
  show ?case using Cons by (cases k) (auto simp: p)
qed

lemma set_other_keys:
  "set (concat (map (\<lambda>(k, v). case k of Idx i \<Rightarrow> if i < m then [] else [Idx i] | Name n \<Rightarrow> [Name n]) ps))
     = {k \<in> fst ` set ps. \<forall>i. k = Idx i \<longrightarrow> \<not> i < m}"
proof (induction ps)
  case Nil
  show ?case by simp
next
  case (Cons p ps)
  obtain k v where p: "p = (k, v)" by (cases p)
  show ?case using Cons by (cases k) (auto simp: p)
qed

lemma set_own_keys: "set (own_keys ps) = fst ` set ps"
proof -
  have "\<And>k. (\<exists>i. k = Idx i \<and> i < max_index) \<or> (\<forall>i. k = Idx i \<longrightarrow> \<not> i < max_index)"
    by auto
  then show ?thesis
    unfolding own_keys_def set_append set_map set_sort set_index_keys set_other_keys
    by (auto simp: image_iff) (metis fst_conv)+
qed

lemma distinct_index_keys:
  "distinct (map fst ps) \<Longrightarrow>
     distinct (concat (map (\<lambda>(k, v). case k of Idx i \<Rightarrow> if i < m then [i] else [] | Name _ \<Rightarrow> []) ps))"
proof (induction ps)
  case Nil
  show ?case by simp
next
  case (Cons p ps)
  obtain k v where p: "p = (k, v)" by (cases p)
  have "distinct (concat (map (\<lambda>(k, v). case k of Idx i \<Rightarrow> if i < m then [i] else [] | Name _ \<Rightarrow> []) ps))"
    using Cons by simp
  moreover have "k \<notin> fst ` set ps" using Cons.prems by (simp add: p)
  ultimately show ?case
    unfolding p list.map concat.simps prod.case distinct_append set_index_keys
    by (cases k) auto
qed

lemma distinct_other_keys:
  "distinct (map fst ps) \<Longrightarrow>
     distinct (concat (map (\<lambda>(k, v). case k of Idx i \<Rightarrow> if i < m then [] else [Idx i] | Name n \<Rightarrow> [Name n]) ps))"
proof (induction ps)
  case Nil
  show ?case by simp
next
  case (Cons p ps)
  obtain k v where p: "p = (k, v)" by (cases p)
  have "distinct (concat (map (\<lambda>(k, v). case k of Idx i \<Rightarrow> if i < m then [] else [Idx i] | Name n \<Rightarrow> [Name n]) ps))"
    using Cons by simp
  moreover have "k \<notin> fst ` set ps" using Cons.prems by (simp add: p)
  ultimately show ?case
    unfolding p list.map concat.simps prod.case distinct_append set_other_keys
    by (cases k) auto
qed

lemma distinct_own_keys:
  assumes "distinct (map fst ps)"
  shows "distinct (own_keys ps)"
proof -
  have a: "distinct (map Idx (sort (concat (map (\<lambda>(k, v). case k of
         Idx i \<Rightarrow> if i < max_index then [i] else [] | Name _ \<Rightarrow> []) ps))))"
    using distinct_index_keys [OF assms, of max_index] by (simp add: distinct_map inj_on_def)
  have b: "distinct (concat (map (\<lambda>(k, v). case k of
         Idx i \<Rightarrow> if i < max_index then [] else [Idx i] | Name n \<Rightarrow> [Name n]) ps))"
    using assms by (rule distinct_other_keys)
  have c: "set (map Idx (sort (concat (map (\<lambda>(k, v). case k of
         Idx i \<Rightarrow> if i < max_index then [i] else [] | Name _ \<Rightarrow> []) ps))))
       \<inter> set (concat (map (\<lambda>(k, v). case k of
         Idx i \<Rightarrow> if i < max_index then [] else [Idx i] | Name n \<Rightarrow> [Name n]) ps)) = {}"
    unfolding set_map set_sort set_index_keys set_other_keys by auto
  show ?thesis unfolding own_keys_def distinct_append using a b c by blast
qed

lemma the_map_of_value: "k \<in> fst ` set ps \<Longrightarrow> the (map_of ps k) \<in> snd ` set ps"
proof -
  assume "k \<in> fst ` set ps"
  then obtain v where "map_of ps k = Some v" by (auto dest: weak_map_of_SomeI)
  moreover from this have "(k, v) \<in> set ps" by (rule map_of_SomeD)
  ultimately show ?thesis by force
qed

lemma raw_get_slot:
  "raw_get s b k \<in> slots s b \<or> ((\<forall>a. raw_get s b k \<noteq> Ref a) \<and> (\<forall>p. raw_get s b k \<noteq> Prx p))"
  by (auto simp: raw_get_def slots_def split: option.splits ukey.splits dest!: map_of_SomeD intro: rev_image_eqI)

lemma old_val_raw_get: "\<forall>v \<in> slots s b. old_val N v \<Longrightarrow> old_val N (raw_get s b k)"
  using raw_get_slot [of s b k] by (auto simp: old_val_def split: val.splits)

lemma val_ok_slot_raw_get: "\<forall>v \<in> slots s b. val_ok s v \<Longrightarrow> val_ok s (raw_get s b k)"
  using raw_get_slot [of s b k] by (auto simp: val_ok_def split: val.splits)

lemma values_update: "snd ` set (AList.update k u ps) \<subseteq> insert u (snd ` set ps)"
  by (induction ps) auto

lemma slots_raw_set:
  "slots (snd (raw_set b k u s)) a \<subseteq> (if a = b then insert u (slots s b) else slots s a)"
  using values_update [of k u "props (heap s b)"]
  by (auto simp: raw_set_def slots_def keep_below_def split: val.splits)

lemma heap_raw_set_other: "a \<noteq> b \<Longrightarrow> heap (snd (raw_set b k u s)) a = heap s a"
  by (auto simp: raw_set_def split: val.splits)

lemma distinct_raw_set:
  "distinct (map fst (props (heap s a))) \<Longrightarrow> distinct (map fst (props (heap (snd (raw_set b k u s)) a)))"
  by (auto simp: raw_set_def keep_below_def distinct_update distinct_map_filter split: val.splits)

lemma raw_set_env:
  "next_addr (snd (raw_set b k u s)) = next_addr s" "proxies (snd (raw_set b k u s)) = proxies s"
  "frozen (heap (snd (raw_set b k u s)) a) = frozen (heap s a)"
  "kind (heap (snd (raw_set b k u s)) a) = kind (heap s a)"
  "lookup_proxy (heap (snd (raw_set b k u s)) a) = lookup_proxy (heap s a)"
  using raw_set_fields [of b k u s "fst (raw_set b k u s)" "snd (raw_set b k u s)"]
  by (simp_all add: lookup_proxy_def split: option.splits)

lemma values_copy:
  "snd ` set (props (assign_copy ob)) \<subseteq> snd ` set (props ob)"
  "snd ` set (props (slice_copy ob)) \<subseteq> snd ` set (props ob)"
proof -
  have "\<And>k. k \<in> set (own_keys (props ob)) \<Longrightarrow> the (map_of (props ob) k) \<in> snd ` set (props ob)"
    by (simp add: set_own_keys the_map_of_value)
  then show "snd ` set (props (assign_copy ob)) \<subseteq> snd ` set (props ob)"
    "snd ` set (props (slice_copy ob)) \<subseteq> snd ` set (props ob)"
    by (auto simp: assign_copy_def slice_copy_def empty_obj_def)
qed

lemma distinct_copy:
  "distinct (map fst (props ob)) \<Longrightarrow> distinct (map fst (props (assign_copy ob)))"
  "distinct (map fst (props ob)) \<Longrightarrow> distinct (map fst (props (slice_copy ob)))"
  by (simp_all add: assign_copy_def slice_copy_def empty_obj_def comp_def distinct_own_keys)

lemma copy_fields:
  "\<not> frozen (assign_copy ob)" "\<not> frozen (slice_copy ob)"
  "kind (assign_copy ob) = PlainObject" "kind (slice_copy ob) = ArrayObject"
  "alen (slice_copy ob) = alen ob"
  "lookup_proxy (assign_copy ob) = None" "lookup_proxy (slice_copy ob) = None"
  by (simp_all add: assign_copy_def slice_copy_def empty_obj_def lookup_proxy_def)

lemma raw_get_raw_set_other:
  "k' \<noteq> k \<Longrightarrow> \<not> (is_array s b \<and> (k = length_key \<or> k' = length_key)) \<Longrightarrow>
     raw_get (snd (raw_set b k u s)) b k' = raw_get s b k'"
proof -
  assume a: "k' \<noteq> k" "\<not> (is_array s b \<and> (k = length_key \<or> k' = length_key))"
  then have "snd (raw_set b k u s) = s
      \<or> (kind (heap (snd (raw_set b k u s)) b) = kind (heap s b)
         \<and> props (heap (snd (raw_set b k u s)) b) = AList.update k u (props (heap s b)))"
    by (auto simp: raw_set_def)
  then show ?thesis
  proof
    assume "snd (raw_set b k u s) = s"
    then show ?thesis by simp
  next
    assume "kind (heap (snd (raw_set b k u s)) b) = kind (heap s b)
         \<and> props (heap (snd (raw_set b k u s)) b) = AList.update k u (props (heap s b))"
    with a show ?thesis
      by (auto simp: raw_get_def is_array_def update_conv' split: option.splits ukey.splits)
  qed
qed

lemma traversal_inv_visit: "traversal_inv N rk M vis s \<Longrightarrow> a < N \<Longrightarrow> traversal_inv N rk M (a # vis) s"
  by (auto simp: traversal_inv_def)

lemma val_ok_mono: "val_ok s v \<Longrightarrow> next_addr s \<le> next_addr s' \<Longrightarrow> val_ok s' v"
  by (auto simp: val_ok_def split: val.splits)

lemma traversal_inv_raw_set:
  assumes i: "traversal_inv N rk M vis s" and p: "in_progress N b vis s" and v: "val_ok s u"
  shows "traversal_inv N rk M vis (snd (raw_set b k u s))"
proof (cases "frozen (heap s b)")
  case True
  then have "snd (raw_set b k u s) = s" by (simp add: raw_set_def)
  with i show ?thesis by simp
next
  case nf: False
  let ?s = "snd (raw_set b k u s)"
  have n: "next_addr ?s = next_addr s" and x: "proxies ?s = proxies s"
    and f: "\<And>a. frozen (heap ?s a) = frozen (heap s a)"
    by (simp_all add: raw_set_env)
  have ok: "\<And>w. val_ok ?s w = val_ok s w" by (simp add: val_ok_def n split: val.splits)
  from i p have b: "b < next_addr s" and nb: "\<And>a. a < N \<Longrightarrow> a \<notin> set vis \<Longrightarrow> a \<noteq> b"
    by (auto simp: traversal_inv_def in_progress_def)
  have sl: "\<And>a. a \<noteq> b \<Longrightarrow> slots ?s a = slots s a"
    by (simp add: slots_def heap_raw_set_other)
  have c4: "distinct (map fst (props (heap ?s a))) \<and> (\<forall>w \<in> slots ?s a. val_ok ?s w)"
    if "a < next_addr ?s" for a
  proof -
    from that i have d: "distinct (map fst (props (heap s a)))" and c: "\<forall>w \<in> slots s a. val_ok s w"
      by (auto simp: traversal_inv_def n)
    from i b have cb: "\<forall>w \<in> slots s b. val_ok s w" by (auto simp: traversal_inv_def)
    have "\<forall>w \<in> slots ?s a. val_ok s w"
      using slots_raw_set [of b k u s a] c cb v by (auto split: if_splits)
    with d show ?thesis by (simp add: distinct_raw_set ok)
  qed
  have c5: "\<forall>w \<in> slots ?s a. old_val N w" if "a < N" "a \<notin> set vis" for a
    using that i nb [OF that] by (simp add: sl traversal_inv_def)
  have c6: "rk a < M \<and> (\<forall>c. Ref c \<in> slots ?s a \<and> frozen (heap ?s c) \<longrightarrow> rk c < rk a)"
    if "a < N" "frozen (heap ?s a)" for a
  proof -
    from that have fa: "frozen (heap s a)" by (simp add: f)
    with nf have "a \<noteq> b" by auto
    with that(1) fa i show ?thesis by (simp add: sl f traversal_inv_def)
  qed
  have c7: "\<not> frozen (heap ?s a)" if "N \<le> a" "a < next_addr ?s" for a
    using that i by (simp add: f n traversal_inv_def)
  from i have "N \<le> next_addr ?s" "set vis \<subseteq> {a. a < N}" "\<forall>p. proxies ?s p < N"
    by (simp_all add: traversal_inv_def n x)
  with c4 c5 c6 c7 show ?thesis unfolding traversal_inv_def by blast
qed

lemma traversal_inv_alloc:
  assumes i: "traversal_inv N rk M vis s" and a: "a < N"
    and sub: "snd ` set (props cp) \<subseteq> slots s a" and d: "distinct (map fst (props cp))"
    and nf: "\<not> frozen cp"
  shows "traversal_inv N rk M vis (snd (alloc cp s))"
proof -
  let ?s = "snd (alloc cp s)" and ?c = "next_addr s"
  have n: "next_addr ?s = Suc ?c" and x: "proxies ?s = proxies s"
    and hc: "heap ?s ?c = cp" and ho: "\<And>b. b \<noteq> ?c \<Longrightarrow> heap ?s b = heap s b"
    by (simp_all add: alloc_def)
  from i a have an: "a < ?c" and N: "N \<le> ?c" by (auto simp: traversal_inv_def)
  have ok: "\<And>w. val_ok s w \<Longrightarrow> val_ok ?s w" using val_ok_mono [of s _ ?s] by (simp add: n)
  have so: "\<And>b. b \<noteq> ?c \<Longrightarrow> slots ?s b = slots s b" by (simp add: slots_def ho)
  have sc: "slots ?s ?c \<subseteq> slots s a" using sub by (simp add: slots_def hc)
  have c4: "distinct (map fst (props (heap ?s b))) \<and> (\<forall>w \<in> slots ?s b. val_ok ?s w)"
    if "b < next_addr ?s" for b
  proof (cases "b = ?c")
    case True
    from i an have "\<forall>w \<in> slots s a. val_ok s w" by (auto simp: traversal_inv_def)
    with sc have "\<forall>w \<in> slots ?s ?c. val_ok ?s w" by (auto intro: ok)
    with True d show ?thesis by (simp add: hc)
  next
    case False
    with that have "b < ?c" by (simp add: n)
    with i have "distinct (map fst (props (heap s b)))" "\<forall>w \<in> slots s b. val_ok s w"
      by (auto simp: traversal_inv_def)
    with False show ?thesis by (auto simp: ho so intro: ok)
  qed
  have c5: "\<forall>w \<in> slots ?s b. old_val N w" if "b < N" "b \<notin> set vis" for b
  proof -
    from that N have "b \<noteq> ?c" by simp
    with that i show ?thesis by (simp add: so traversal_inv_def)
  qed
  have c6: "rk b < M \<and> (\<forall>c. Ref c \<in> slots ?s b \<and> frozen (heap ?s c) \<longrightarrow> rk c < rk b)"
    if "b < N" "frozen (heap ?s b)" for b
  proof -
    from that N have bc: "b \<noteq> ?c" "b < ?c" by simp_all
    with that have fb: "frozen (heap s b)" by (simp add: ho)
    from i bc(2) have cl: "\<forall>w \<in> slots s b. val_ok s w" by (auto simp: traversal_inv_def)
    have "rk c < rk b" if c: "Ref c \<in> slots ?s b" "frozen (heap ?s c)" for c
    proof -
      from c(1) bc have m: "Ref c \<in> slots s b" by (simp add: so)
      with cl have "c < ?c" by (auto simp: val_ok_def)
      with c(2) have "frozen (heap s c)" by (simp add: ho)
      with m fb i \<open>b < N\<close> show ?thesis by (auto simp: traversal_inv_def)
    qed
    moreover from fb i \<open>b < N\<close> have "rk b < M" by (auto simp: traversal_inv_def)
    ultimately show ?thesis by blast
  qed
  have c7: "\<not> frozen (heap ?s b)" if "N \<le> b" "b < next_addr ?s" for b
  proof (cases "b = ?c")
    case True
    with nf show ?thesis by (simp add: hc)
  next
    case False
    with that i show ?thesis by (simp add: ho n traversal_inv_def)
  qed
  from i have "N \<le> next_addr ?s" "set vis \<subseteq> {a. a < N}" "\<forall>p. proxies ?s p < N"
    by (simp_all add: traversal_inv_def n x)
  with c4 c5 c6 c7 show ?thesis unfolding traversal_inv_def by blast
qed

lemma raw_get_same_obj: "heap s' b = heap s b \<Longrightarrow> raw_get s' b k = raw_get s b k"
  by (simp add: raw_get_def is_array_def split: option.splits ukey.splits)

lemma finite_unvisited [simp]: "finite (unvisited N vis)"
  by (simp add: unvisited_def)

lemma unvisited_mono: "set vis \<subseteq> set vis' \<Longrightarrow> card (unvisited N vis') \<le> card (unvisited N vis)"
  by (intro card_mono) (auto simp: unvisited_def)

lemma unvisited_visit: "a < N \<Longrightarrow> a \<notin> set vis \<Longrightarrow> card (unvisited N (a # vis)) < card (unvisited N vis)"
  by (intro psubset_card_mono) (auto simp: unvisited_def)

lemma depth_of_same:
  "old_val N v \<Longrightarrow> (\<And>a. a < N \<Longrightarrow> frozen (heap s' a) = frozen (heap s a)) \<Longrightarrow>
     depth_of rk s' v = depth_of rk s v"
  by (cases v) (simp_all add: depth_of_def old_val_def)

text \<open>The loop at fuel \<open>n\<close>, given that every call returns at fuel \<open>n\<close>.\<close>

lemma loop_from_call:
  assumes call: "call_returns N rk M n"
  shows "loop_returns N rk M n"
proof -
  have "\<exists>vis' s'. unwrap_props n b ks vis s = Some (vis', s')
           \<and> traversal_inv N rk M vis' s' \<and> traversal_frame (Some b) vis s vis' s'"
    if "traversal_inv N rk M vis s" "in_progress N b vis s" "\<not> frozen (heap s b)" "distinct ks"
      "is_array s b \<longrightarrow> length_key \<notin> set ks" "\<forall>k \<in> set ks. enough_fuel N rk M n vis s (raw_get s b k)"
    for b ks vis s
    using that
  proof (induction ks arbitrary: vis s)
    case Nil
    then show ?case by (simp add: traversal_frame_def)
  next
    case (Cons k ks)
    let ?v = "raw_get s b k"
    from Cons.prems(6) have fv: "enough_fuel N rk M n vis s ?v" by simp
    from call Cons.prems(1) fv obtain u vis1 s1 where
      eq: "unwrap n ?v vis s = Some (u, vis1, s1)" and i1: "traversal_inv N rk M vis1 s1"
      and f1: "traversal_frame None vis s vis1 s1" and ok: "val_ok s1 u"
      unfolding call_returns_def by blast
    from eq have pr: "protects s s1" by (rule protects_unwrap)
    from Cons.prems(1) have N: "N \<le> next_addr s" by (simp add: traversal_inv_def)
    from i1 have v1: "set vis1 \<subseteq> {a. a < N}" by (simp add: traversal_inv_def)
    from f1 have sub: "set vis \<subseteq> set vis1" and n1: "next_addr s \<le> next_addr s1"
      by (simp_all add: traversal_frame_def)
    have hb: "heap s1 b = heap s b"
      using f1 Cons.prems(2) v1 by (auto simp: traversal_frame_def in_progress_def)
    have p1: "in_progress N b vis1 s1"
      using Cons.prems(2) sub n1 by (auto simp: in_progress_def)
    let ?s2 = "if \<not> strict_eq u ?v then snd (raw_set b k u s1) else s1"
    have i2: "traversal_inv N rk M vis1 ?s2"
      using i1 p1 ok by (simp add: traversal_inv_raw_set)
    have n2: "next_addr ?s2 = next_addr s1" by (simp add: raw_set_env)
    have p2: "in_progress N b vis1 ?s2" using p1 by (simp add: in_progress_def n2)
    have fr: "\<And>a. frozen (heap ?s2 a) = frozen (heap s1 a)" by (simp add: raw_set_env)
    have fl: "\<And>a. a < N \<Longrightarrow> frozen (heap ?s2 a) = frozen (heap s a)"
      using pr N by (simp add: fr protects_def)
    have nf2: "\<not> frozen (heap ?s2 b)" using Cons.prems(3) hb by (simp add: fr)
    have arr: "is_array ?s2 b = is_array s b"
      using hb by (simp add: is_array_def raw_set_env)
    have arr1: "is_array s1 b = is_array s b" using hb by (simp add: is_array_def)
    from Cons.prems(4) have d: "distinct ks" and nk: "k \<notin> set ks" by simp_all
    have same: "raw_get ?s2 b k' = raw_get s b k'" if "k' \<in> set ks" for k'
    proof -
      from that nk have ne: "k' \<noteq> k" by auto
      from that Cons.prems(5) have nl: "\<not> (is_array s1 b \<and> (k = length_key \<or> k' = length_key))"
        by (auto simp: arr1)
      have "raw_get s1 b k' = raw_get s b k'" using hb by (rule raw_get_same_obj)
      then show ?thesis using raw_get_raw_set_other [OF ne nl, of u] by simp
    qed
    have fits2: "\<forall>k' \<in> set ks. enough_fuel N rk M n vis1 ?s2 (raw_get ?s2 b k')"
    proof
      fix k' assume k': "k' \<in> set ks"
      with Cons.prems(6) have f: "enough_fuel N rk M n vis s (raw_get s b k')" by simp
      then have o: "old_val N (raw_get s b k')" by (simp add: enough_fuel_def)
      have "depth_of rk ?s2 (raw_get s b k') = depth_of rk s (raw_get s b k')"
        using o fl by (rule depth_of_same)
      moreover have "card (unvisited N vis1) \<le> card (unvisited N vis)" using sub by (rule unvisited_mono)
      ultimately have "card (unvisited N vis1) * Suc M + depth_of rk ?s2 (raw_get s b k')
          \<le> card (unvisited N vis) * Suc M + depth_of rk s (raw_get s b k')"
        by (simp add: add_le_mono mult_le_mono1)
      with f o show "enough_fuel N rk M n vis1 ?s2 (raw_get ?s2 b k')"
        by (simp add: same [OF k'] enough_fuel_def)
    qed
    have len2: "is_array ?s2 b \<longrightarrow> length_key \<notin> set ks"
      using Cons.prems(5) by (simp add: arr)
    from Cons.IH [OF i2 p2 nf2 d len2 fits2] obtain vis' s' where
      r: "unwrap_props n b ks vis1 ?s2 = Some (vis', s')" and i': "traversal_inv N rk M vis' s'"
      and f': "traversal_frame (Some b) vis1 ?s2 vis' s'"
      by blast
    have res: "unwrap_props n b (k # ks) vis s = Some (vis', s')"
      using eq r by (simp add: Let_def)
    have h2: "\<And>a. a \<noteq> b \<Longrightarrow> heap ?s2 a = heap s1 a" by (simp add: heap_raw_set_other)
    have "traversal_frame (Some b) vis s vis' s'"
      unfolding traversal_frame_def
    proof (intro conjI allI impI)
      show "set vis \<subseteq> set vis'" using sub f' by (auto simp: traversal_frame_def)
      show "next_addr s \<le> next_addr s'" using n1 n2 f' by (simp add: traversal_frame_def)
    next
      fix a assume a: "Some a \<noteq> Some b \<and> (a \<in> set vis \<or> a \<notin> set vis' \<and> a < next_addr s)"
      then have ab: "a \<noteq> b" by simp
      from f' have sub': "set vis1 \<subseteq> set vis'" by (simp add: traversal_frame_def)
      from a have "a \<in> set vis \<or> (a \<notin> set vis1 \<and> a < next_addr s)" using sub' by auto
      then have e1: "heap s1 a = heap s a" using f1 unfolding traversal_frame_def by blast
      from a sub n1 n2 have "a \<in> set vis1 \<or> (a \<notin> set vis' \<and> a < next_addr ?s2)" by auto
      with ab f' have "heap s' a = heap ?s2 a" unfolding traversal_frame_def by blast
      with e1 h2 [OF ab] show "heap s' a = heap s a" by simp
    qed
    with res i' show ?case by blast
  qed
  then show ?thesis unfolding loop_returns_def by blast
qed

lemma depth_of_slot_frozen:
  assumes i: "traversal_inv N rk M vis s" and a: "a < N" "frozen (heap s a)" and v: "v \<in> slots s a"
  shows "depth_of rk s v \<le> rk a"
proof (cases v)
  case (Ref b)
  with i a v show ?thesis by (auto simp: depth_of_def traversal_inv_def Suc_le_eq)
qed (simp_all add: depth_of_def)

lemma depth_of_bound:
  assumes i: "traversal_inv N rk M vis s" and v: "old_val N v"
  shows "depth_of rk s v \<le> M"
proof (cases v)
  case (Ref b)
  with i v show ?thesis by (auto simp: depth_of_def traversal_inv_def old_val_def Suc_le_eq)
qed (simp_all add: depth_of_def)

lemma depth_of_plain: "\<forall>a. v \<noteq> Ref a \<Longrightarrow> depth_of rk s v = 0"
  by (cases v) (simp_all add: depth_of_def)

lemma old_val_plain: "\<forall>a. v \<noteq> Ref a \<Longrightarrow> old_val N v"
  by (cases v) (simp_all add: old_val_def)

text \<open>One call at fuel \<open>Suc n\<close>, given that the loop returns at fuel \<open>n\<close>.\<close>

lemma call_from_loop:
  assumes loop: "loop_returns N rk M n"
  shows "call_returns N rk M (Suc n)"
proof -
  have "\<exists>v vis' s'. unwrap (Suc n) item vis s = Some (v, vis', s')
           \<and> traversal_inv N rk M vis' s' \<and> traversal_frame None vis s vis' s' \<and> val_ok s' v"
    if i: "traversal_inv N rk M vis s" and f: "enough_fuel N rk M (Suc n) vis s item" for item vis s
  proof (cases item)
    case (Prx p)
    from i have "proxies s p < next_addr s" by (auto simp: traversal_inv_def intro: less_le_trans)
    with Prx i show ?thesis by (simp add: traversal_frame_def val_ok_def)
  next
    case (Ref a)
    from f Ref have aN: "a < N" by (simp add: enough_fuel_def old_val_def)
    from i have N: "N \<le> next_addr s" by (simp add: traversal_inv_def)
    show ?thesis
    proof (cases "\<not> isWrappable s item \<or> a \<in> set vis")
      case True
      with Ref i aN N show ?thesis by (auto simp: traversal_frame_def val_ok_def)
    next
      case False
      then have nv: "a \<notin> set vis" by simp
      from i aN nv have olds: "\<forall>v \<in> slots s a. old_val N v" by (simp add: traversal_inv_def)
      from i aN N have da: "distinct (map fst (props (heap s a)))" by (auto simp: traversal_inv_def)
      show ?thesis
      proof (cases "frozen (heap s a)")
        case fz: True
        define cp where "cp = (if is_array s a then slice_copy (heap s a) else assign_copy (heap s a))"
        define c where "c = next_addr s"
        define s1 where "s1 = snd (alloc cp s)"
        define ks where "ks = (if is_array s a then map Idx [0..<alen (heap s1 c)]
                               else own_keys (props (heap s1 c)))"
        have hc: "heap s1 c = cp" and n1: "next_addr s1 = Suc c"
          and ho: "\<And>b. b \<noteq> c \<Longrightarrow> heap s1 b = heap s b"
          by (simp_all add: s1_def c_def alloc_def)
        have sub: "snd ` set (props cp) \<subseteq> slots s a"
          using values_copy [of "heap s a"] by (auto simp: cp_def slots_def)
        have dc: "distinct (map fst (props cp))"
          using da by (simp add: cp_def distinct_copy)
        have nfc: "\<not> frozen cp" by (simp add: cp_def copy_fields)
        have i1: "traversal_inv N rk M vis s1"
          unfolding s1_def using i aN sub dc nfc by (rule traversal_inv_alloc)
        have p1: "in_progress N c vis s1" using N by (simp add: in_progress_def n1 c_def)
        have nf1: "\<not> frozen (heap s1 c)" using nfc by (simp add: hc)
        have dk: "distinct ks"
          using dc by (simp add: ks_def hc distinct_map inj_on_def distinct_own_keys)
        have arr: "is_array s1 c = is_array s a"
          by (simp add: is_array_def hc cp_def copy_fields)
        have lk: "is_array s1 c \<longrightarrow> length_key \<notin> set ks"
          by (auto simp: arr ks_def)
        have fl: "\<And>b. b < N \<Longrightarrow> frozen (heap s1 b) = frozen (heap s b)"
          using N by (simp add: ho c_def)
        have fit: "\<forall>k \<in> set ks. enough_fuel N rk M n vis s1 (raw_get s1 c k)"
        proof
          fix k assume "k \<in> set ks"
          let ?w = "raw_get s1 c k"
          have w: "?w \<in> slots s a \<or> (\<forall>b. ?w \<noteq> Ref b)"
            using raw_get_slot [of s1 c k] sub by (auto simp: slots_def hc)
          have o: "old_val N ?w" using w olds by (auto intro: old_val_plain)
          have "depth_of rk s ?w \<le> rk a"
            using w depth_of_slot_frozen [OF i aN fz] by (auto simp: depth_of_plain)
          moreover have "depth_of rk s1 ?w = depth_of rk s ?w" using o fl by (rule depth_of_same)
          moreover have "card (unvisited N vis) * Suc M + Suc (rk a) < Suc n"
            using f Ref fz by (simp add: enough_fuel_def depth_of_def)
          ultimately show "enough_fuel N rk M n vis s1 ?w" using o by (simp add: enough_fuel_def)
        qed
        from loop i1 p1 nf1 dk lk fit obtain vis' s' where
          r: "unwrap_props n c ks vis s1 = Some (vis', s')" and i': "traversal_inv N rk M vis' s'"
          and f': "traversal_frame (Some c) vis s1 vis' s'"
          unfolding loop_returns_def by blast
        have res: "unwrap (Suc n) item vis s = Some (Ref c, vis', s')"
          using r False Ref fz
          by (cases "is_array s a") (simp_all add: ks_def s1_def c_def cp_def alloc_def Let_def)
        have "traversal_frame None vis s vis' s'"
          unfolding traversal_frame_def
        proof (intro conjI allI impI)
          show "set vis \<subseteq> set vis'" using f' by (simp add: traversal_frame_def)
          show "next_addr s \<le> next_addr s'" using f' n1 by (simp add: traversal_frame_def c_def)
        next
          fix b assume b: "Some b \<noteq> None \<and> (b \<in> set vis \<or> b \<notin> set vis' \<and> b < next_addr s)"
          from i have "set vis \<subseteq> {x. x < N}" by (simp add: traversal_inv_def)
          with b N have bc: "b \<noteq> c" by (auto simp: c_def)
          from b n1 have "b \<in> set vis \<or> (b \<notin> set vis' \<and> b < next_addr s1)" by (auto simp: c_def)
          with bc f' have "heap s' b = heap s1 b" unfolding traversal_frame_def by blast
          with ho [OF bc] show "heap s' b = heap s b" by simp
        qed
        moreover have "val_ok s' (Ref c)"
          using f' n1 by (simp add: traversal_frame_def val_ok_def)
        ultimately show ?thesis using res i' by blast
      next
        case nf: False
        define ks where "ks = (if is_array s a then map Idx [0..<alen (heap s a)]
                               else own_keys (props (heap s a)))"
        have i1: "traversal_inv N rk M (a # vis) s" using i aN by (rule traversal_inv_visit)
        have p1: "in_progress N a (a # vis) s" by (simp add: in_progress_def)
        have dk: "distinct ks"
          using da by (simp add: ks_def distinct_map inj_on_def distinct_own_keys)
        have lk: "is_array s a \<longrightarrow> length_key \<notin> set ks" by (auto simp: ks_def)
        have c1: "card (unvisited N (a # vis)) < card (unvisited N vis)" using aN nv by (rule unvisited_visit)
        have fit: "\<forall>k \<in> set ks. enough_fuel N rk M n (a # vis) s (raw_get s a k)"
        proof
          fix k assume "k \<in> set ks"
          let ?w = "raw_get s a k"
          have o: "old_val N ?w" using olds by (rule old_val_raw_get)
          have "depth_of rk s ?w \<le> M" using i o by (rule depth_of_bound)
          moreover have "Suc (card (unvisited N (a # vis))) * Suc M \<le> card (unvisited N vis) * Suc M"
            using c1 by (intro mult_le_mono1) simp
          moreover have "card (unvisited N vis) * Suc M < Suc n"
            using f by (simp add: enough_fuel_def)
          ultimately have "card (unvisited N (a # vis)) * Suc M + depth_of rk s ?w < n" by simp
          with o show "enough_fuel N rk M n (a # vis) s ?w" by (simp add: enough_fuel_def)
        qed
        from loop i1 p1 nf dk lk fit obtain vis' s' where
          r: "unwrap_props n a ks (a # vis) s = Some (vis', s')" and i': "traversal_inv N rk M vis' s'"
          and f': "traversal_frame (Some a) (a # vis) s vis' s'"
          unfolding loop_returns_def by blast
        have res: "unwrap (Suc n) item vis s = Some (Ref a, vis', s')"
          using r False Ref nf by (cases "is_array s a") (simp_all add: ks_def)
        have "traversal_frame None vis s vis' s'"
          unfolding traversal_frame_def
        proof (intro conjI allI impI)
          show "set vis \<subseteq> set vis'" using f' by (simp add: traversal_frame_def)
          show "next_addr s \<le> next_addr s'" using f' by (simp add: traversal_frame_def)
        next
          fix b assume b: "Some b \<noteq> None \<and> (b \<in> set vis \<or> b \<notin> set vis' \<and> b < next_addr s)"
          from f' have av: "a \<in> set vis'" by (simp add: traversal_frame_def)
          from b nv av have ba: "b \<noteq> a" by auto
          from b have "b \<in> set (a # vis) \<or> (b \<notin> set vis' \<and> b < next_addr s)" by auto
          with ba f' show "heap s' b = heap s b" unfolding traversal_frame_def by blast
        qed
        moreover have "val_ok s' (Ref a)"
          using f' aN N by (simp add: traversal_frame_def val_ok_def)
        ultimately show ?thesis using res i' by blast
      qed
    qed
  qed (use i in \<open>auto simp: traversal_frame_def val_ok_def\<close>)
  then show ?thesis unfolding call_returns_def by blast
qed

lemma unwrap_returns_ranked: "call_returns N rk M n \<and> loop_returns N rk M n"
proof (induction n)
  case 0
  have "call_returns N rk M 0" by (simp add: call_returns_def enough_fuel_def)
  then show ?case by (simp add: loop_from_call)
next
  case (Suc n)
  then have "call_returns N rk M (Suc n)" by (simp add: call_from_loop)
  then show ?case by (simp add: loop_from_call)
qed

lemma unwrap_result:
  assumes "unwrap n x [] s = Some (y, vis', s')"
  shows "y = unwrapped s x"
proof (cases "\<exists>p. x = Prx p")
  case True
  with assms show ?thesis by (cases n) (auto simp: unwrapped_def)
next
  case False
  with unwrap_raw_result [OF assms] show ?thesis
    by (auto simp: unwrapped_def split: val.splits)
qed

lemma traversal_inv_start: "frozen_ranked s rk M \<Longrightarrow> traversal_inv (next_addr s) rk M [] s"
  unfolding frozen_ranked_def traversal_inv_def
  by (auto simp: val_ok_def old_val_def split: val.splits)

lemma traversal_inv_end: "traversal_inv N rk M vis s \<Longrightarrow> frozen_ranked s rk M"
  unfolding frozen_ranked_def traversal_inv_def
  by (metis (no_types, lifting) less_le_trans not_le_imp_less)

lemma unwrap_total:
  assumes w: "frozen_ranked s rk M" and ok: "val_ok s x"
  shows "\<exists>vis' s'. unwrap (Suc (next_addr s * Suc M + M)) x [] s = Some (unwrapped s x, vis', s')
           \<and> frozen_ranked s' rk M \<and> val_ok s' (unwrapped s x) \<and> protects s s'"
proof -
  let ?N = "next_addr s"
  have i: "traversal_inv ?N rk M [] s" using w by (rule traversal_inv_start)
  have o: "old_val ?N x" using ok by (simp add: val_ok_def old_val_def)
  have "depth_of rk s x \<le> M" using i o by (rule depth_of_bound)
  moreover have "card (unvisited ?N []) = ?N" by (simp add: unvisited_def)
  ultimately have "enough_fuel ?N rk M (Suc (?N * Suc M + M)) [] s x"
    using o by (simp add: enough_fuel_def)
  with i unwrap_returns_ranked [of ?N rk M "Suc (?N * Suc M + M)"] obtain v vis' s' where
    eq: "unwrap (Suc (?N * Suc M + M)) x [] s = Some (v, vis', s')" and i': "traversal_inv ?N rk M vis' s'"
    and v: "val_ok s' v"
    unfolding call_returns_def by blast
  from eq have "v = unwrapped s x" by (rule unwrap_result)
  moreover from i' have "frozen_ranked s' rk M" by (rule traversal_inv_end)
  moreover from eq have "protects s s'" by (rule protects_unwrap)
  ultimately show ?thesis using eq v by blast
qed

lemma isWrappable_unwrap:
  assumes "unwrap n x vis s = Some (y, vis', s')" and "a < next_addr s"
  shows "isWrappable s' (Ref a) = isWrappable s (Ref a)"
proof -
  from assms(1) have "protects s s'" by (rule protects_unwrap)
  with assms(2) have "kind (heap s' a) = kind (heap s a)" "proto_proxy (heap s' a) = proto_proxy (heap s a)"
    by (simp_all add: protects_def)
  moreover from assms(1) have "same_views s s'" by (rule same_views_unwrap)
  with assms(2) have "proxy (heap s' a) = proxy (heap s a)" by (simp add: same_views_def)
  ultimately show ?thesis by (simp add: isWrappable_def lookup_proxy_def split: option.splits)
qed

text \<open>What unwrap returns is returned again by unwrap.\<close>

lemma unwrapped_again:
  assumes eq: "unwrap n x [] s = Some (y, vis', s')" and ok: "val_ok s x"
    and nv: "\<forall>p. x = Prx p \<longrightarrow> \<not> frozen (heap s (proxies s p))"
  shows "unwrapped s' y = y"
proof -
  from eq have y: "y = unwrapped s x" by (rule unwrap_result)
  from eq have pr: "protects s s'" by (rule protects_unwrap)
  obtain m where n: "n = Suc m" using eq by (cases n) auto
  show ?thesis
  proof (cases x)
    case (Prx p)
    with eq n have "s' = s" by simp
    with y Prx nv show ?thesis by (simp add: unwrapped_def)
  next
    case (Ref a)
    from ok Ref have a: "a < next_addr s" by (simp add: val_ok_def)
    show ?thesis
    proof (cases "frozen (heap s a) \<and> isWrappable s x")
      case True
      with unwrap_frozen [of n a s y vis' s'] eq Ref
      have "y = Ref (next_addr s)" "\<not> frozen (heap s' (next_addr s))" by simp_all
      then show ?thesis by (simp add: unwrapped_def)
    next
      case False
      with y Ref have yx: "y = Ref a" by (auto simp: unwrapped_def)
      have "frozen (heap s' a) = frozen (heap s a)" using pr a by (simp add: protects_def)
      moreover have "isWrappable s' (Ref a) = isWrappable s (Ref a)"
        using eq a by (rule isWrappable_unwrap)
      ultimately show ?thesis using False Ref by (auto simp: yx unwrapped_def)
    qed
  qed (use y in \<open>simp_all add: unwrapped_def\<close>)
qed

lemma raw_set_same:
  assumes "raw_get s b k = u" and "is_array s b \<longrightarrow> (\<exists>i. k = Idx i \<and> i < alen (heap s b))"
    and "u = NaN"
  shows "snd (raw_set b k u s) = s"
proof (cases "frozen (heap s b)")
  case True
  then show ?thesis by (simp add: raw_set_def)
next
  case False
  from assms(2) have nl: "\<not> (is_array s b \<and> k = length_key)" by auto
  from assms(1,3) nl have m: "map_of (props (heap s b)) k = Some NaN"
    by (auto simp: raw_get_def split: option.splits ukey.splits if_splits)
  have al: "(case k of Idx i \<Rightarrow> if kind (heap s b) = ArrayObject \<and> i < max_index \<and> alen (heap s b) \<le> i
                then Suc i else alen (heap s b) | Name _ \<Rightarrow> alen (heap s b)) = alen (heap s b)"
    using assms(2) by (auto simp: is_array_def split: ukey.splits)
  have "upd_obj b (\<lambda>ob. ob\<lparr>props := AList.update k u (props ob),
              alen := (case k of
                  Idx i \<Rightarrow> if kind ob = ArrayObject \<and> i < max_index \<and> alen ob \<le> i then Suc i else alen ob
                | Name _ \<Rightarrow> alen ob)\<rparr>) s = s"
    using m al by (simp add: upd_obj_def assms(3) update_triv)
  with False nl show ?thesis by (auto simp: raw_set_def)
qed

lemma settled_raw_get: "settled s \<Longrightarrow> settled_val s (raw_get s b k)"
  using raw_get_slot [of s b k] by (auto simp: settled_def settled_val_def split: val.splits)

lemma unwrap_settled_loop:
  assumes call: "\<And>item vis v vis' s'. unwrap n item vis s = Some (v, vis', s') \<Longrightarrow>
       settled_val s item \<Longrightarrow> v = item \<and> s' = s"
    and st: "settled s"
  shows "unwrap_props n b ks vis s = Some (vis', s') \<Longrightarrow> in_range s b ks \<Longrightarrow> s' = s"
proof (induction ks arbitrary: vis)
  case Nil
  then show ?case by simp
next
  case (Cons k ks)
  let ?v = "raw_get s b k"
  from Cons.prems(1) obtain u vis1 s1 where
    eq: "unwrap n ?v vis s = Some (u, vis1, s1)" and
    r: "unwrap_props n b ks vis1 (if \<not> strict_eq u ?v then snd (raw_set b k u s1) else s1) = Some (vis', s')"
    by (auto simp: Let_def split: option.splits)
  from call [OF eq settled_raw_get [OF st]] have u: "u = ?v" and s1: "s1 = s" by simp_all
  have "(if \<not> strict_eq u ?v then snd (raw_set b k u s1) else s1) = s"
  proof (cases "strict_eq u ?v")
    case True
    then show ?thesis by (simp add: s1)
  next
    case False
    with u have nan: "?v = NaN" by (simp add: strict_eq_def)
    have "snd (raw_set b k ?v s) = s"
      using Cons.prems(2) nan by (intro raw_set_same) (auto simp: in_range_def)
    with False show ?thesis by (simp add: s1 u)
  qed
  with r have "unwrap_props n b ks vis1 s = Some (vis', s')" by simp
  moreover have "in_range s b ks" using Cons.prems(2) by (simp add: in_range_def)
  ultimately show ?case by (rule Cons.IH)
qed

lemma unwrap_settled:
  assumes st: "settled s"
  shows "unwrap n item vis s = Some (v, vis', s') \<Longrightarrow> settled_val s item \<Longrightarrow> v = item \<and> s' = s"
proof (induction n arbitrary: item vis v vis' s')
  case 0
  then show ?case by simp
next
  case (Suc n)
  have loop: "\<And>b ks vis vis' s'. unwrap_props n b ks vis s = Some (vis', s') \<Longrightarrow> in_range s b ks \<Longrightarrow> s' = s"
    using Suc.IH st by (rule unwrap_settled_loop)
  show ?case
  proof (cases item)
    case (Ref a)
    show ?thesis
    proof (cases "\<not> isWrappable s item \<or> a \<in> set vis")
      case True
      with Suc.prems Ref show ?thesis by auto
    next
      case False
      with Suc.prems(2) Ref have nf: "\<not> frozen (heap s a)" by (simp add: settled_val_def)
      define ks where "ks = (if is_array s a then map Idx [0..<alen (heap s a)]
                             else own_keys (props (heap s a)))"
      from Suc.prems(1) Ref False nf obtain vis2 s2 where
        u: "unwrap_props n a ks (a # vis) s = Some (vis2, s2)" and v: "v = Ref a" and s': "s' = s2"
        by (cases "is_array s a") (auto simp: ks_def split: option.splits)
      have "in_range s a ks" by (auto simp: in_range_def ks_def)
      with u have "s2 = s" by (rule loop)
      with v s' Ref show ?thesis by simp
    qed
  next
    case (Prx p)
    with Suc.prems(2) show ?thesis by (simp add: settled_val_def)
  qed (use Suc.prems in auto)
qed

lemma unwrap_ranked:
  assumes w: "frozen_ranked t rk M" and ok: "val_ok t x"
  shows "\<exists>vis' t'. unwrap (Suc (next_addr t * Suc M + M)) x [] t = Some (unwrapped t x, vis', t')
            \<and> frozen_ranked t' rk M
            \<and> (settled t \<and> settled_val t x \<longrightarrow> unwrapped t x = x \<and> t' = t)
            \<and> ((\<forall>p. x = Prx p \<longrightarrow> \<not> frozen (heap t (proxies t p)))
                 \<longrightarrow> (\<exists>vis'' t''. unwrap (Suc (next_addr t' * Suc M + M)) (unwrapped t x) [] t'
                        = Some (unwrapped t x, vis'', t'')))"
proof -
  from unwrap_total [OF w ok] obtain vis' t' where
    eq: "unwrap (Suc (next_addr t * Suc M + M)) x [] t = Some (unwrapped t x, vis', t')"
    and w': "frozen_ranked t' rk M" and ok': "val_ok t' (unwrapped t x)"
    by blast
  have a: "unwrapped t x = x \<and> t' = t" if "settled t" "settled_val t x"
    using unwrap_settled [OF that(1) eq that(2)] by simp
  have b: "\<exists>vis'' t''. unwrap (Suc (next_addr t' * Suc M + M)) (unwrapped t x) [] t'
                        = Some (unwrapped t x, vis'', t'')"
    if "\<forall>p. x = Prx p \<longrightarrow> \<not> frozen (heap t (proxies t p))"
  proof -
    from unwrapped_again [OF eq ok that] have "unwrapped t' (unwrapped t x) = unwrapped t x" .
    with unwrap_total [OF w' ok'] show ?thesis by auto
  qed
  from eq w' a b show ?thesis by blast
qed

subsection \<open>The sources of cells\<close>

lemma snd_andThen:
  "snd (andThen m f) = (case fst m of Inl e \<Rightarrow> snd m | Inr x \<Rightarrow> snd (f x (snd m)))"
  by (cases m) (auto simp: andThen_def split: sum.splits)

lemma snd_andThen_keep [simp]: "snd (andThen m (\<lambda>u s1. (c u s1, s1))) = snd m"
  by (cases m) (auto simp: andThen_def split: sum.splits)

lemma raw_get_getDataNodes [simp]: "raw_get (snd (getDataNodes t s)) b k = raw_get s b k"
  by (simp add: raw_get_def is_array_def getDataNodes_heap split: option.splits ukey.splits)

lemma only_new_refl [simp]: "only_new S s s"
  by (simp add: only_new_def)

lemma only_new_trans: "only_new S a b \<Longrightarrow> only_new S b c \<Longrightarrow> only_new S a c"
  unfolding only_new_def by blast

lemma only_new_same: "cells s' = cells s \<Longrightarrow> only_new S s s'"
  by (simp add: only_new_def)

lemma getDataNode_only_new: "only_new {(t, u)} s (snd (getDataNode t u v s))"
  by (auto simp: only_new_def getDataNode_def split: option.splits ukey.splits if_splits)

lemma read_cell_only_new: "only_new S s (snd (read_cell t u s))"
  by (auto simp: only_new_def read_cell_def split: option.splits if_splits)

lemma set_cell_only_new: "only_new {(t, u)} s (set_cell t u c s)"
  by (auto simp: only_new_def split: if_splits)

lemma fire_cell_only_new: "only_new S s (fire_cell a k v s)"
  by (simp add: only_new_def)

lemma cells_raw_set [simp]: "cells (snd (raw_set a k v s)) = cells s"
  using raw_set_fields [of a k v s] by (metis prod.collapse)

lemma cells_raw_delete [simp]: "cells (snd (raw_delete a k s)) = cells s"
  using raw_delete_fields [of a k s] by (metis prod.collapse)

lemma get_creates_only:
  "only_new (case k of Key u \<Rightarrow> {(t, u)} | TRACK \<Rightarrow> {(t, self_key)} | _ \<Rightarrow> {}) s
     (snd (proxy_get t k rcv s))"
proof -
  define S where "S = (case k of Key u \<Rightarrow> {(t, u)} | TRACK \<Rightarrow> {(t, self_key)} | _ \<Rightarrow> {})"
  have "only_new S s (snd (proxy_get t k rcv s))"
  proof (rule proxy_get_rel_at [of "only_new S"])
    show "\<And>a b c. only_new S a b \<Longrightarrow> only_new S b c \<Longrightarrow> only_new S a c"
      by (rule only_new_trans)
    show "\<And>u v s. k = Key u \<Longrightarrow> only_new S s (snd (getDataNode t u v s))"
      by (simp add: S_def getDataNode_only_new)
    show "\<And>u s. only_new S s (snd (read_cell t u s))"
      by (rule read_cell_only_new)
    show "\<And>c s. k = TRACK \<Longrightarrow> only_new S s (set_cell t self_key c s)"
      by (simp add: S_def set_cell_only_new)
  qed (simp_all add: only_new_same)
  then show ?thesis by (simp add: S_def)
qed

lemma setProperty_creates_only:
  "only_new {(st, p), (st, length_key)} s (snd (setProperty st p v d s))"
proof (rule setProperty_rel_at [of "only_new {(st, p), (st, length_key)}"])
  show "\<And>a b c. only_new {(st, p), (st, length_key)} a b \<Longrightarrow> only_new {(st, p), (st, length_key)} b c
          \<Longrightarrow> only_new {(st, p), (st, length_key)} a c"
    by (rule only_new_trans)
  show "\<And>k w s. k = p \<or> k = length_key \<Longrightarrow> only_new {(st, p), (st, length_key)} s (snd (getDataNode st k w s))"
    using getDataNode_only_new by (fastforce simp: only_new_def)
qed (simp_all add: only_new_same fire_cell_only_new)

lemma setProperty_new_length_cell:
  assumes none: "cells s st length_key = None"
    and some: "cells (snd (setProperty st p v d s)) st length_key \<noteq> None"
    and np: "p \<noteq> length_key"
  shows "is_array s st \<and> alen (heap (snd (setProperty st p v d s)) st) \<noteq> alen (heap s st)"
proof -
  let ?prev = "raw_get s st p" and ?len = "raw_get s st length_key"
  have "snd (setProperty st p v d s) = s" if "(\<not> d \<and> strict_eq ?prev v) \<or> p = Name ''__proto__''"
    using that by (auto simp: setProperty_def)
  with none some have nt: "\<not> ((\<not> d \<and> strict_eq ?prev v) \<or> p = Name ''__proto__'')"
    by auto
  obtain r1 s1 where m1: "(if d then raw_delete st p s else raw_set st p v s) = (r1, s1)"
    by (cases "if d then raw_delete st p s else raw_set st p v s") auto
  then have c1: "cells s1 = cells s" and k1: "kind (heap s1 st) = kind (heap s st)"
    by (auto dest: raw_set_fields raw_delete_fields split: if_splits)
  obtain r2 s2 where m2: "getDataNodes st s1 = (r2, s2)" by (cases "getDataNodes st s1") auto
  then have c2: "cells s2 = cells s1" and k2: "kind (heap s2 st) = kind (heap s1 st)"
    using cells_getDataNodes [of st s1] getDataNodes_heap(1) [of st s1 st] by simp_all
  obtain nd s3 where m3: "getDataNode st p ?prev s2 = (nd, s3)"
    by (cases "getDataNode st p ?prev s2") auto
  have "only_new {(st, p)} s2 s3" using getDataNode_only_new [of st p s2 ?prev] m3 by simp
  then have "cells s3 st length_key \<noteq> None
      \<longrightarrow> cells s2 st length_key \<noteq> None \<or> (st, length_key) \<in> {(st, p)}"
    unfolding only_new_def by blast
  with np none c1 c2 have c3: "cells s3 st length_key = None" by auto
  have k3: "kind (heap s3 st) = kind (heap s2 st)"
    using getDataNode_heap(1) [of st p ?prev s2 st] m3 by simp
  obtain r4 s4 where m4: "fire_node st nd v s3 = (r4, s4)" by (cases "fire_node st nd v s3") auto
  then have c4: "cells s4 st length_key = None" and k4: "kind (heap s4 st) = kind (heap s3 st)"
    using c3 by (auto simp: fire_node_def split: node.splits)
  have res: "snd (setProperty st p v d s) =
      (case r1 of Inl e \<Rightarrow> s1 | Inr x \<Rightarrow>
        (case r2 of Inl e \<Rightarrow> s2 | Inr x \<Rightarrow>
          (case r4 of Inl e \<Rightarrow> s4 | Inr x \<Rightarrow> fire_self st (snd (fire_length st ?len s4)))))"
  proof -
    have "setProperty st p v d s =
        andThen (if d then raw_delete st p s else raw_set st p v s) (\<lambda>u s1.
        andThen (getDataNodes st s1) (\<lambda>u s2.
        andThen (case getDataNode st p ?prev s2 of (nd, s3) \<Rightarrow> fire_node st nd v s3) (\<lambda>u s4.
        andThen (fire_length st ?len s4) (\<lambda>u s5.
        (Inr (), fire_self st s5)))))"
      using nt by (auto simp: setProperty_def Let_def)
    then show ?thesis
      using m1 m2 m3 m4 by (simp add: snd_andThen fire_length_eq split: sum.splits)
  qed
  let ?s5 = "snd (fire_length st ?len s4)"
  from some res c1 c2 none c3 c4 have fin: "snd (setProperty st p v d s) = fire_self st ?s5"
    by (auto split: sum.splits)
  with some have "cells ?s5 st length_key \<noteq> None"
    by (auto simp: fire_self_def split: option.splits)
  with c4 have guard: "is_array s4 st" "\<not> strict_eq (raw_get s4 st length_key) ?len"
    by (auto simp: fire_length_eq split: if_splits)
  from guard(1) k1 k2 k3 k4 have arr: "is_array s st" by (simp add: is_array_def)
  with guard have "alen (heap s4 st) \<noteq> alen (heap s st)" by (simp add: raw_get_length)
  moreover have "alen (heap (fire_self st ?s5) st) = alen (heap s4 st)" by simp
  ultimately show ?thesis using arr fin by simp
qed

lemma tracked_get_registers:
  assumes cr: "CurrentReaction s = Some r"
    and get: "proxy_get t (Key k) rcv s = (Inr w, s')"
    and nf: "\<not> is_function (raw_get s t k)"
  shows "\<exists>c. cells s' t k = Some c \<and> r \<in> set (observers c)"
proof -
  from get obtain s1 where g: "getDataNodes t s = (Inr (), s1)"
    and rest: "(case read_value t k s1 of (tracked, v, s2) \<Rightarrow>
             if k = Name ''__proto__'' then (Inl Unmodelled, s2)
             else
               andThen (should_track tracked v t k s2, s2) (\<lambda>track s3.
               andThen (if track then track_read t k v s3 else (Inr v, s3)) wrap_result))
             = (Inr w, s')"
    by (auto simp: proxy_get_def andThen_Inr)
  from g have c1: "cells s1 = cells s" and n1: "nodes (heap s1 t) \<noteq> None"
    by (auto dest: getDataNodes_cases)
  have r1: "CurrentReaction s1 = Some r"
    using CurrentReaction_getDataNodes [of t s] g cr by simp
  have v1: "raw_get s1 t k = raw_get s t k"
    using raw_get_getDataNodes [of t s t k] g by simp
  have wr: "\<And>x u. cells (snd (wrap_result x u)) = cells u"
    by (simp add: wrap_result_def)
  show ?thesis
  proof (cases "cells s1 t k")
    case (Some c)
    let ?s2 = "set_cell t k (c\<lparr>observers := observers c @ [r]\<rparr>) s1"
    have rv: "read_value t k s1 = (True, payload c, ?s2)"
      using Some r1 by (simp add: read_value_def read_cell_def)
    with rest have "wrap_result (payload c) ?s2 = (Inr w, s')"
      by (auto simp: should_track_def split: if_splits)
    then have "cells s' = cells ?s2" using wr [of "payload c" ?s2] by simp
    then show ?thesis using n1 by simp
  next
    case None
    let ?v = "raw_get s1 t k"
    have rv: "read_value t k s1 = (False, ?v, s1)"
      using None by (simp add: read_value_def)
    have st: "should_track False ?v t k s1 = Inr True"
      using r1 nf v1 by (simp add: should_track_def)
    from rest rv st obtain w1 s3 where tr: "track_read t k ?v s1 = (Inr w1, s3)"
      and wres: "wrap_result w1 s3 = (Inr w, s')"
      by (auto simp: andThen_Inr split: if_splits)
    from tr obtain s2 where gd: "getDataNode t k ?v s1 = (CellNode k, s2)"
      and rd: "read_cell t k s2 = (w1, s3)"
      by (auto simp: track_read_def split: prod.splits node.splits dest: getDataNode_CellNode)
    from gd None n1 have s2: "s2 = set_cell t k (createDataNode ?v) s1"
      by (auto simp: getDataNode_def split: ukey.splits if_splits)
    have c2: "cells s2 t k = Some (createDataNode ?v)" and r2: "CurrentReaction s2 = Some r"
      using n1 r1 by (simp_all add: s2)
    have n2: "nodes (heap s2 t) \<noteq> None" using n1 by (simp add: s2)
    from rd c2 r2 have s3: "s3 = set_cell t k ((createDataNode ?v)\<lparr>observers := observers (createDataNode ?v) @ [r]\<rparr>) s2"
      by (simp add: read_cell_def)
    have "cells s' = cells s3" using wr [of w1 s3] wres by simp
    then show ?thesis using n2 by (simp add: s3)
  qed
qed

lemma ownKeys_state: "snd (ownKeys t s) = snd (proxy_get t TRACK rcv s)"
  by (simp add: ownKeys_def proxy_get_def)

lemma untracked_ownKeys: "CurrentReaction s = None \<Longrightarrow> snd (ownKeys t s) = s"
  by (simp add: ownKeys_def trackSelf_def)

lemma cells_kept_unwrap:
  "unwrap n item vis s = Some (v, vis', s') \<Longrightarrow> cells s a k = None \<Longrightarrow> cells s' a k = None"
proof -
  let ?R = "\<lambda>s s'. \<forall>a k. cells s a k = None \<longrightarrow> cells s' a k = None"
  have "unwrap n item vis s = Some (v, vis', s') \<Longrightarrow> ?R s s'"
  proof (rule unwrap_rel_at(1) [of ?R])
    show "\<And>x s. ?R s (snd (alloc (slice_copy x) s))"
      by (auto simp: alloc_def cells_def slice_copy_def empty_obj_def)
    show "\<And>x s. ?R s (snd (alloc (assign_copy x) s))"
      by (auto simp: alloc_def cells_def assign_copy_def empty_obj_def)
  qed auto
  then show "unwrap n item vis s = Some (v, vis', s') \<Longrightarrow> cells s a k = None \<Longrightarrow> cells s' a k = None"
    by blast
qed

lemma proxy_has_state:
  "snd (proxy_has t pk s) = s \<or> snd (proxy_has t pk s) = snd (proxy_get t pk (Ref t) s)"
  by (auto simp: proxy_has_def split: pkey.splits)


lemma get_new_cell:
  assumes "cells s a k = None" and "cells (snd (proxy_get t pk rcv s)) a k \<noteq> None"
  shows "CurrentReaction s \<noteq> None \<and> a = t \<and> (pk = Key k \<or> (pk = TRACK \<and> k = self_key))"
proof -
  have "CurrentReaction s \<noteq> None"
  proof
    assume "CurrentReaction s = None"
    then have "cells (snd (proxy_get t pk rcv s)) = cells s"
      by (rule untracked_get_creates_no_cell)
    with assms show False by simp
  qed
  moreover have "(a, k) \<in> (case pk of Key u \<Rightarrow> {(t, u)} | TRACK \<Rightarrow> {(t, self_key)} | _ \<Rightarrow> {})"
    using get_creates_only [where k = pk and t = t and s = s and rcv = rcv] assms
    unfolding only_new_def by blast
  then have "a = t \<and> (pk = Key k \<or> (pk = TRACK \<and> k = self_key))"
    by (cases pk) auto
  ultimately show ?thesis by simp
qed

lemma setProperty_new_cell:
  assumes "cells u b j = None" and "cells (snd (setProperty st p v d u)) b j \<noteq> None"
  shows "b = st \<and> (j = p \<or> (j = length_key \<and> is_array u st
           \<and> alen (heap (snd (setProperty st p v d u)) st) \<noteq> alen (heap u st)))"
proof -
  have "(b, j) \<in> {(st, p), (st, length_key)}"
    using setProperty_creates_only [of st p u v d] assms unfolding only_new_def by blast
  then have b: "b = st" and j: "j = p \<or> j = length_key" by auto
  show ?thesis
  proof (cases "j = p")
    case True
    with b show ?thesis by simp
  next
    case False
    with j have l: "j = length_key" and np: "p \<noteq> length_key" by auto
    from setProperty_new_length_cell [OF _ _ np, of u st v d] assms b l
    show ?thesis by simp
  qed
qed

lemma setProperty_creates_and_fires:
  assumes "fst (setProperty st p v d u) = Inr ()" and "d \<or> \<not> strict_eq (raw_get u st p) v"
  shows "cells (snd (setProperty st p v d u)) st p \<noteq> None
     \<and> (\<exists>l. fired (snd (setProperty st p v d u)) = fired u @ (st, p) # l)"
proof -
  from assms(1) have "setProperty st p v d u = (Inr (), snd (setProperty st p v d u))"
    by (simp add: prod_eq_iff)
  then show ?thesis using assms(2) by (rule setProperty_creates_cell)
qed

text \<open>
  A call of \<open>setProperty\<close> that mutates and returns normally fires the self cell of the
  node when the node has one, last, and the cell keeps its dependents.
\<close>

lemma setProperty_fires_self:
  assumes "setProperty st p v d s = (Inr (), s')"
    and "d \<or> \<not> strict_eq (raw_get s st p) v"
    and "cells s st self_key = Some c"
  shows "\<exists>l c'. fired s' = fired s @ l @ [(st, self_key)]
           \<and> cells s' st self_key = Some c' \<and> observers c' = observers c"
proof -
  from assms(1,2) obtain s1 s2 s3 where
    s1: "(if d then raw_delete st p s else raw_set st p v s) = (Inr (), s1)" and
    s2: "getDataNodes st s1 = (Inr (), s2)" and
    s3: "getDataNode st p (raw_get s st p) s2 = (CellNode p, s3)" and
    s': "s' = fire_self st (snd (fire_length st (raw_get s st length_key) (fire_cell st p v s3)))"
    by (rule setProperty_steps)
  let ?s4 = "fire_cell st p v s3"
  let ?s5 = "snd (fire_length st (raw_get s st length_key) ?s4)"
  from s1 have c1: "cells s1 = cells s" and f1: "fired s1 = fired s"
    by (auto dest: raw_set_fields raw_delete_fields split: if_splits)
  from s2 have c2: "cells s2 = cells s1" and f2: "fired s2 = fired s1"
    and n2: "nodes (heap s2 st) \<noteq> None"
    by (auto dest: getDataNodes_cases)
  from assms(3) c1 c2 have e2: "cells s2 st self_key = Some c" by simp
  from s3 e2 have e3: "cells s3 st self_key = Some c"
    using getDataNode_keeps [of s2 st self_key st p "raw_get s st p"] by simp
  from s3 have f3: "fired s3 = fired s2" using getDataNode_fired [of st p "raw_get s st p" s2] by simp
  from s3 n2 have n3: "nodes (heap s3 st) \<noteq> None"
    using nodes_getDataNode_None [of st p "raw_get s st p" s2 st] by simp
  have "\<exists>l. fired ?s4 = fired s @ l"
    by (simp add: fired_fire_cell f3 f2 f1)
  moreover have "\<exists>l. fired ?s5 = fired ?s4 @ l" by (rule fire_length_fired_prefix)
  ultimately obtain l where l: "fired ?s5 = fired s @ l" by auto
  obtain c4 where "cells ?s4 st self_key = Some c4" "observers c4 = observers c"
    using fire_cell_observers [OF e3, of st p v] by blast
  then obtain c5 where c5: "cells ?s5 st self_key = Some c5" "observers c5 = observers c"
    using fire_length_observers [of ?s4 st self_key c4 "raw_get s st length_key"] by auto
  have "fired s' = fired s @ l @ [(st, self_key)]"
    by (simp add: s' fire_self_def c5 fired_fire_cell l)
  moreover have "\<exists>c'. cells s' st self_key = Some c' \<and> observers c' = observers c"
    using c5 by (simp add: s' fire_self_def)
  ultimately show ?thesis by auto
qed

subsection \<open>The closed gate\<close>

text \<open>
  C1, as amended. While no transaction is open (\<open>Writing\<close> is false), the \<open>set\<close> and
  \<open>deleteProperty\<close> traps return \<open>true\<close> and leave the whole state as it was, whatever
  the target, the key and the value: the raw node is unchanged and no cell is fired. The
  assignment or the deletion on the view then returns normally, unless the engine rejects
  the answer of the trap: it throws \<open>TypeError\<close> when the key that is deleted is an own
  property of the target that is not configurable, and when the key that is assigned is an
  own property that is neither configurable nor writable and the value is not its current
  one; the state is unchanged then, too. So for the keys of user code on a target that is
  not frozen, an assignment never fails and a deletion fails for the \<open>length\<close> of an array
  only.
\<close>

theorem closed_gate_changes_nothing:
  "\<not> Writing s \<Longrightarrow>
     proxy_set fuel target property v s = Some (Inr True, s)
     \<and> proxy_deleteProperty target property s = (Inr True, s)
     \<and> view_set fuel target property v s
          = Some (if rejects_value s target property v then Inl TypeError else Inr True, s)
     \<and> view_delete target property s
          = (if rejects_delete s target property then Inl TypeError else Inr True, s)
     \<and> (\<not> frozen (heap s target) \<longrightarrow>
           view_set fuel target (Key k) v s = Some (Inr True, s)
         \<and> (\<not> (is_array s target \<and> k = length_key) \<longrightarrow>
               view_delete target (Key k) s = (Inr True, s)))"
  by (simp add: proxy_set_def proxy_deleteProperty_def view_set_def view_delete_def
      rejects_value_def rejects_delete_def)

text \<open>
  The claim as stated fails: with the gate closed, \<open>delete view.length\<close> on the store of
  the array \<open>[1, 2, 3]\<close> throws \<open>TypeError\<close>, because the trap answers \<open>true\<close> for a
  property of the target that is not configurable. The state is unchanged.
\<close>

theorem closed_gate_delete_length_counterexample:
  "\<not> Writing closed_array_store
   \<and> view_delete 0 (Key length_key) closed_array_store = (Inl TypeError, closed_array_store)"
  by (simp add: closed_array_store_def view_delete_def proxy_deleteProperty_def rejects_delete_def
      model_defs)

theorem closed_gate_changes_nothing_witness:
  "\<not> Writing closed_array_store
   \<and> proxy_set 1 0 (Key (Idx 0)) (Num 5) closed_array_store = Some (Inr True, closed_array_store)
   \<and> proxy_deleteProperty 0 (Key length_key) closed_array_store = (Inr True, closed_array_store)
   \<and> \<not> rejects_value closed_array_store 0 (Key (Idx 0)) (Num 5)
   \<and> view_set 1 0 (Key (Idx 0)) (Num 5) closed_array_store = Some (Inr True, closed_array_store)
   \<and> rejects_delete closed_array_store 0 (Key length_key)
   \<and> view_delete 0 (Key length_key) closed_array_store = (Inl TypeError, closed_array_store)
   \<and> \<not> frozen (heap closed_array_store 0)
   \<and> view_delete 0 (Key (Idx 0)) closed_array_store = (Inr True, closed_array_store)"
proof -
  have closed: "\<not> Writing closed_array_store"
    by (simp add: closed_array_store_def model_defs)
  have nf: "\<not> frozen (heap closed_array_store 0)"
    by (simp add: closed_array_store_def model_defs)
  have rv: "\<not> rejects_value closed_array_store 0 (Key (Idx 0)) (Num 5)"
    using nf by (simp add: rejects_value_def)
  have rd: "rejects_delete closed_array_store 0 (Key length_key)"
    by (simp add: closed_array_store_def model_defs)
  from closed_gate_changes_nothing [OF closed, of 1 0 "Key (Idx 0)" "Num 5" "Idx 0"]
    closed_gate_changes_nothing [OF closed, of 1 0 "Key length_key" "Num 5" "Idx 0"]
    closed nf rv rd
  show ?thesis by simp
qed

subsection \<open>Idempotent writes\<close>

text \<open>
  C3. An assignment (\<open>deleting\<close> false) of a value that is \<open>===\<close> to the current raw
  value of the property returns from \<open>setProperty\<close> at once: the state is the same, so the
  raw node is unchanged and neither the cell of the property nor the \<open>length\<close> cell nor the
  self cell is fired.
\<close>

theorem identical_assignment_is_noop:
  "strict_eq (raw_get s st property) v \<Longrightarrow> setProperty st property v False s = (Inr (), s)"
  by (simp add: setProperty_def)

theorem identical_assignment_is_noop_witness:
  "strict_eq (raw_get counter_store 0 (Name ''count'')) (Num 0)
   \<and> setProperty 0 (Name ''count'') (Num 0) False counter_store = (Inr (), counter_store)"
proof -
  have same: "strict_eq (raw_get counter_store 0 (Name ''count'')) (Num 0)"
    by (simp add: example_defs numeral_2_eq_2 Let_def)
  from identical_assignment_is_noop [OF same] same show ?thesis by simp
qed

subsection \<open>Structural notification\<close>

text \<open>
  C6. The code at a failing input. The store of \<open>{count: 0}\<close> has a self cell with the
  dependent 7, a computation that enumerated its keys. Inside a transaction the assignment
  \<open>view.toString = 1\<close> adds the property \<open>toString\<close> to the raw node and then throws
  \<open>TypeError\<close>, because the registry inherits \<open>toString\<close> and the inherited function has
  no method \<open>$\<close>: nothing is fired, so the dependent is not notified of the new key. (For
  a call that returns normally the self cell is fired: lemma \<open>setProperty_fires_self\<close>.)
\<close>

theorem inherited_key_write_skips_self_cell:
  "Writing enumerated_store
   \<and> cells enumerated_store 0 self_key = Some \<lparr>payload = Undefined, observers = [7]\<rparr>
   \<and> map_of (props (heap enumerated_store 0)) (Name ''toString'') = None
   \<and> fst (setProperty 0 (Name ''toString'') (Num 1) False enumerated_store) = Inl TypeError
   \<and> map_option fst (view_set 1 0 (Key (Name ''toString'')) (Num 1) enumerated_store) = Some (Inl TypeError)
   \<and> map_of (props (heap (snd (setProperty 0 (Name ''toString'') (Num 1) False enumerated_store)) 0))
        (Name ''toString'') = Some (Num 1)
   \<and> fired (snd (setProperty 0 (Name ''toString'') (Num 1) False enumerated_store)) = fired enumerated_store
   \<and> cells (snd (setProperty 0 (Name ''toString'') (Num 1) False enumerated_store)) 0 self_key
        = Some \<lparr>payload = Undefined, observers = [7]\<rparr>"
  by (simp add: model_defs)

subsection \<open>Identity of views\<close>

text \<open>
  C5. Once \<open>wrap\<close> has returned a view for a raw node, every later call for that node
  returns the same view and changes nothing, so no second view is created; the view is
  cached on the node and survives whatever a callback does through the traps in between.
  (On a frozen node without a view \<open>wrap\<close> throws and returns no view.)
\<close>

theorem wrap_is_stable:
  assumes "wrap (Ref r) s = (Inr v, s1)" and "r < next_addr s"
  shows "wrap (Ref r) s1 = (Inr v, s1)
     \<and> (\<forall>fuel acts res s2. run_actions fuel acts s1 = Some (res, s2)
            \<longrightarrow> wrap (Ref r) s2 = (Inr v, s2))"
proof -
  from assms(1) obtain p where v: "v = Prx p" and c: "lookup_proxy (heap s1 r) = Some p"
    by (auto dest: wrap_Inr_cached)
  have n: "r < next_addr s1"
    using assms protects_wrap [of s "Ref r"] by (auto simp: protects_def)
  have "wrap (Ref r) s1 = (Inr v, s1)" using c v by (simp add: wrap_cached)
  moreover have "wrap (Ref r) s2 = (Inr v, s2)"
    if "run_actions fuel acts s1 = Some (res, s2)" for fuel acts res s2
  proof -
    from that have "protects s1 s2" by (rule protects_run_actions)
    then have "lookup_proxy (heap s2 r) = Some p" using n c by (rule protects_lookup_proxy)
    then show ?thesis using v by (simp add: wrap_cached)
  qed
  ultimately show ?thesis by blast
qed


theorem wrap_is_stable_witness:
  "\<exists>s1 s2. wrap (Ref 0) counter_state = (Inr (Prx 0), s1) \<and> 0 < next_addr counter_state
      \<and> run_actions 1 [GetProp 0 (Key (Name ''count''))] s1 = Some (Inr (), s2)
      \<and> wrap (Ref 0) s1 = (Inr (Prx 0), s1) \<and> wrap (Ref 0) s2 = (Inr (Prx 0), s2)"
proof -
  let ?s1 = "snd (wrap (Ref 0) counter_state)"
  have w: "wrap (Ref 0) counter_state = (Inr (Prx 0), ?s1)"
    by (simp add: prod_eq_iff model_defs)
  have n: "0 < next_addr counter_state" by (simp add: model_defs)
  have "\<exists>s2. run_actions 1 [GetProp 0 (Key (Name ''count''))] ?s1 = Some (Inr (), s2)"
    by (simp add: model_defs perform_def)
  then obtain s2 where r: "run_actions 1 [GetProp 0 (Key (Name ''count''))] ?s1 = Some (Inr (), s2)" ..
  from wrap_is_stable [OF w n] r w n show ?thesis by blast
qed

subsection \<open>Where cells come from\<close>

text \<open>
  C2, as amended. Cells are created by tracked reads and by writes, and by nothing else.
  A read through the view with no active tracking context leaves every registry as it is.
  A cell that a read through the view creates is the cell of the key that is read, on the
  target, and the read is inside a tracking context; for the key \<open>$TRACK\<close>, which is
  what an enumeration does, it is the self cell; a membership test changes what the read of
  its key changes, or nothing. A tracked read of a key whose value is not a function, when
  it returns normally, leaves the cell of the key with the tracking context among its
  dependents. A cell that a call of \<open>setProperty\<close> creates, whether the call returns or
  throws, is the cell of the written key or, on an array whose length the call has
  changed, the \<open>length\<close> cell; and a call that mutates and returns normally leaves a cell
  for the written key behind, creating it when there was none, and fires it. \<open>wrap\<close> and
  \<open>unwrap\<close> create no cell.
\<close>

theorem cells_come_only_from_tracked_reads_and_writes:
  "(CurrentReaction s0 = None \<longrightarrow> cells (snd (proxy_get t pk rcv s0)) = cells s0)
   \<and> (cells s a k = None \<and> cells (snd (proxy_get t pk rcv s)) a k \<noteq> None
        \<longrightarrow> CurrentReaction s \<noteq> None \<and> a = t \<and> (pk = Key k \<or> (pk = TRACK \<and> k = self_key)))
   \<and> snd (ownKeys t s) = snd (proxy_get t TRACK rcv s)
   \<and> (snd (proxy_has t pk s) = s \<or> snd (proxy_has t pk s) = snd (proxy_get t pk (Ref t) s))
   \<and> (CurrentReaction s = Some r \<and> proxy_get t (Key k) rcv s = (Inr w, s')
         \<and> \<not> is_function (raw_get s t k)
        \<longrightarrow> (\<exists>c. cells s' t k = Some c \<and> r \<in> set (observers c)))
   \<and> (cells u b j = None \<and> cells (snd (setProperty st p v d u)) b j \<noteq> None
        \<longrightarrow> b = st \<and> (j = p \<or> (j = length_key \<and> is_array u st
               \<and> alen (heap (snd (setProperty st p v d u)) st) \<noteq> alen (heap u st))))
   \<and> (fst (setProperty st p v d u) = Inr () \<and> (d \<or> \<not> strict_eq (raw_get u st p) v)
        \<longrightarrow> cells (snd (setProperty st p v d u)) st p \<noteq> None
            \<and> (\<exists>l. fired (snd (setProperty st p v d u)) = fired u @ (st, p) # l))
   \<and> cells (snd (wrap x s)) = cells s
   \<and> (unwrap n x vis s = Some (y, vis', s'') \<and> cells s b j = None \<longrightarrow> cells s'' b j = None)"
  (is "?A \<and> ?B \<and> ?C \<and> ?D \<and> ?E \<and> ?F \<and> ?G \<and> ?H \<and> ?I")
proof (intro conjI)
  show ?A using untracked_get_creates_no_cell [of s0 t pk rcv] by blast
  show ?B using get_new_cell [of s a k t pk rcv] by blast
  show ?C by (rule ownKeys_state)
  show ?D by (rule proxy_has_state)
  show ?E using tracked_get_registers [of s r t k rcv w s'] by blast
  show ?F using setProperty_new_cell [of u b j st p v d] by blast
  show ?G using setProperty_creates_and_fires [of st p v d u] by blast
  show ?H by (rule cells_wrap)
  show ?I using cells_kept_unwrap [of n x vis s y vis' s'' b j] by blast
qed

text \<open>
  The claim as stated fails: in a store that was never read, with no tracking context,
  assigning \<open>count\<close> creates the cell of \<open>count\<close>.
\<close>

theorem write_creates_cell_counterexample:
  "CurrentReaction counter_store = None
   \<and> cells counter_store 0 (Name ''count'') = None
   \<and> fst (setProperty 0 (Name ''count'') (Num 5) False (counter_store\<lparr>Writing := True\<rparr>)) = Inr ()
   \<and> cells (snd (setProperty 0 (Name ''count'') (Num 5) False (counter_store\<lparr>Writing := True\<rparr>)))
        0 (Name ''count'') = Some \<lparr>payload = Num 5, observers = []\<rparr>"
  by (simp add: model_defs)

theorem cells_come_only_from_tracked_reads_and_writes_witness:
  "CurrentReaction counter_store = None
   \<and> cells (snd (proxy_get 0 (Key (Name ''count'')) (Prx 0) counter_store)) = cells counter_store
   \<and> CurrentReaction tracked_counter_store = Some 7
   \<and> cells tracked_counter_store 0 (Name ''count'') = None
   \<and> \<not> is_function (raw_get tracked_counter_store 0 (Name ''count''))
   \<and> fst (proxy_get 0 (Key (Name ''count'')) (Prx 0) tracked_counter_store) = Inr (Num 0)
   \<and> (\<exists>c. cells (snd (proxy_get 0 (Key (Name ''count'')) (Prx 0) tracked_counter_store)) 0 (Name ''count'')
            = Some c \<and> 7 \<in> set (observers c))
   \<and> cells (counter_store\<lparr>Writing := True\<rparr>) 0 (Name ''count'') = None
   \<and> fst (setProperty 0 (Name ''count'') (Num 5) False (counter_store\<lparr>Writing := True\<rparr>)) = Inr ()
   \<and> \<not> strict_eq (raw_get (counter_store\<lparr>Writing := True\<rparr>) 0 (Name ''count'')) (Num 5)
   \<and> cells (snd (setProperty 0 (Name ''count'') (Num 5) False (counter_store\<lparr>Writing := True\<rparr>)))
        0 (Name ''count'') \<noteq> None
   \<and> (\<exists>l. fired (snd (setProperty 0 (Name ''count'') (Num 5) False (counter_store\<lparr>Writing := True\<rparr>)))
             = fired (counter_store\<lparr>Writing := True\<rparr>) @ (0, Name ''count'') # l)
   \<and> (\<exists>vis' s''. unwrap 2 (Ref 0) [] tracked_counter_store = Some (Ref 0, vis', s'')
          \<and> cells s'' 0 (Name ''count'') = None)"
proof -
  let ?s = tracked_counter_store
  let ?u = "counter_store\<lparr>Writing := True\<rparr>"
  let ?g = "proxy_get 0 (Key (Name ''count'')) (Prx 0) ?s"
  let ?r = "setProperty 0 (Name ''count'') (Num 5) False ?u"
  have u0: "CurrentReaction counter_store = None" by (simp add: model_defs)
  have cr: "CurrentReaction ?s = Some 7" by (simp add: tracked_counter_store_def)
  have none: "cells ?s 0 (Name ''count'') = None" by (simp add: tracked_counter_store_def model_defs)
  have nf: "\<not> is_function (raw_get ?s 0 (Name ''count''))"
    by (simp add: tracked_counter_store_def model_defs)
  have gv: "fst ?g = Inr (Num 0)" by (simp add: tracked_counter_store_def model_defs)
  then have get: "?g = (Inr (Num 0), snd ?g)" by (simp add: prod_eq_iff)
  have nu: "cells ?u 0 (Name ''count'') = None" by (simp add: model_defs)
  have ok: "fst ?r = Inr ()" by (simp add: model_defs)
  have differs: "\<not> strict_eq (raw_get ?u 0 (Name ''count'')) (Num 5)" by (simp add: model_defs)
  have "\<exists>vis' s''. unwrap 2 (Ref 0) [] ?s = Some (Ref 0, vis', s'')"
    by (simp add: tracked_counter_store_def model_defs)
  then obtain vis' s'' where un: "unwrap 2 (Ref 0) [] ?s = Some (Ref 0, vis', s'')" by blast
  from cells_come_only_from_tracked_reads_and_writes
    [where ?s0.0 = counter_store and t = 0 and pk = "Key (Name ''count'')" and rcv = "Prx 0"
       and s = ?s and a = 0 and k = "Name ''count''" and r = 7 and w = "Num 0" and s' = "snd ?g"
       and u = ?u and b = 0 and j = "Name ''count''" and st = 0 and p = "Name ''count''"
       and v = "Num 5" and d = False and n = 2 and x = "Ref 0" and vis = "[]" and y = "Ref 0"
       and vis' = vis' and s'' = s'']
    u0 cr none nf get nu ok differs un
  have "cells (snd (proxy_get 0 (Key (Name ''count'')) (Prx 0) counter_store)) = cells counter_store"
    and "\<exists>c. cells (snd ?g) 0 (Name ''count'') = Some c \<and> 7 \<in> set (observers c)"
    and "cells (snd ?r) 0 (Name ''count'') \<noteq> None
         \<and> (\<exists>l. fired (snd ?r) = fired ?u @ (0, Name ''count'') # l)"
    and "cells s'' 0 (Name ''count'') = None"
    by simp_all
  with u0 cr none nf gv nu ok differs un show ?thesis by blast
qed

subsection \<open>Unwrapping a view\<close>

text \<open>
  C4, as amended. For a raw node that is not frozen and on which the lookup of \<open>$PROXY\<close>
  finds nothing or a view of the node itself, \<open>wrap\<close> returns a view and \<open>unwrap\<close> of
  that view returns the node itself, by reference, at once and without changing anything:
  the graph is not traversed, so cycles do not matter. On a closed heap whose frozen objects
  can be ranked (no frozen object reaches itself through frozen objects only), \<open>unwrap\<close>
  returns for every value, within a fuel that the theorem gives, and the heap it leaves is
  such a heap again. What it returns, there and whenever it returns, is the target of a
  view, a new object for a frozen aggregate, and the value itself otherwise. It is
  idempotent: unless the value is a view whose raw node has been frozen, \<open>unwrap\<close> of the
  result returns the result. And it returns its input and leaves the heap as it is when the
  input is neither a view nor a frozen aggregate and no property of the heap holds a view or
  a frozen aggregate.
\<close>

theorem unwrap_fidelity:
  "(\<not> frozen (heap s r) \<and> (\<forall>p. lookup_proxy (heap s r) = Some p \<longrightarrow> proxies s p = r)
      \<longrightarrow> (\<exists>p s1. wrap (Ref r) s = (Inr (Prx p), s1)
             \<and> (\<forall>n vis. unwrap (Suc n) (Prx p) vis s1 = Some (Ref r, vis, s1))))
   \<and> (frozen_ranked t rk M \<and> val_ok t x
      \<longrightarrow> (\<exists>vis' t'. unwrap (Suc (next_addr t * Suc M + M)) x [] t = Some (unwrapped t x, vis', t')
            \<and> frozen_ranked t' rk M
            \<and> (settled t \<and> settled_val t x \<longrightarrow> unwrapped t x = x \<and> t' = t)
            \<and> ((\<forall>p. x = Prx p \<longrightarrow> \<not> frozen (heap t (proxies t p)))
                 \<longrightarrow> (\<exists>vis'' t''. unwrap (Suc (next_addr t' * Suc M + M)) (unwrapped t x) [] t'
                        = Some (unwrapped t x, vis'', t'')))))
   \<and> (unwrap n z [] u = Some (y, vis, u') \<longrightarrow> y = unwrapped u z)"
  (is "?A \<and> ?B \<and> ?C")
proof (intro conjI)
  show ?A using unwrap_after_wrap [of s r] by blast
  show ?B using unwrap_ranked [of t rk M x] by blast
  show ?C using unwrap_result [of n z u y vis u'] by blast
qed

text \<open>
  The claim as stated fails. On frozen data: \<open>unwrap\<close> of the frozen raw object at address
  0 is the new object at address 2, not its input, and \<open>unwrap\<close> of the raw object at
  address 1, which is not frozen, returns it with its property \<open>child\<close> redirected from the
  frozen object to a copy. On an object that inherits \<open>$PROXY\<close>: \<open>wrap\<close> returns the view
  of the prototype and \<open>unwrap\<close> of it the prototype, at address 0, not the object at
  address 1. On a view whose raw node was frozen later: \<open>unwrap\<close> of the view is the raw
  node, and \<open>unwrap\<close> of the raw node is a copy. And \<open>unwrap\<close> of an object that is not
  frozen and holds a frozen object that refers to itself never returns.
\<close>

theorem unwrap_copies_frozen_counterexample:
  "frozen (heap frozen_child_state 0)
   \<and> map_option fst (unwrap 2 (Ref 0) [] frozen_child_state) = Some (Ref 2)
   \<and> \<not> frozen (heap frozen_child_state 1)
   \<and> raw_get frozen_child_state 1 (Name ''child'') = Ref 0
   \<and> map_option fst (unwrap 3 (Ref 1) [] frozen_child_state) = Some (Ref 1)
   \<and> raw_get (snd (snd (the (unwrap 3 (Ref 1) [] frozen_child_state)))) 1 (Name ''child'') = Ref 2
   \<and> \<not> frozen (heap instance_state 1)
   \<and> fst (wrap (Ref 1) instance_state) = Inr (Prx 0)
   \<and> map_option fst (unwrap 1 (Prx 0) [] (snd (wrap (Ref 1) instance_state))) = Some (Ref 0)
   \<and> map_option fst (unwrap 1 (Prx 0) [] frozen_later_store) = Some (Ref 0)
   \<and> map_option fst (unwrap 2 (Ref 0) [] frozen_later_store) = Some (Ref 1)
   \<and> \<not> frozen (heap frozen_cycle_state 1)
   \<and> (\<forall>n. unwrap n (Ref 1) [] frozen_cycle_state = None)"
proof -
  have "frozen (heap frozen_child_state 0)
   \<and> map_option fst (unwrap 2 (Ref 0) [] frozen_child_state) = Some (Ref 2)
   \<and> \<not> frozen (heap frozen_child_state 1)
   \<and> raw_get frozen_child_state 1 (Name ''child'') = Ref 0
   \<and> map_option fst (unwrap 3 (Ref 1) [] frozen_child_state) = Some (Ref 1)
   \<and> raw_get (snd (snd (the (unwrap 3 (Ref 1) [] frozen_child_state)))) 1 (Name ''child'') = Ref 2"
    by (simp add: frozen_child_state_def model_defs numeral_3_eq_3)
  moreover have "\<not> frozen (heap instance_state 1)
   \<and> fst (wrap (Ref 1) instance_state) = Inr (Prx 0)
   \<and> map_option fst (unwrap 1 (Prx 0) [] (snd (wrap (Ref 1) instance_state))) = Some (Ref 0)"
    by (simp add: instance_state_def model_defs)
  moreover have "map_option fst (unwrap 1 (Prx 0) [] frozen_later_store) = Some (Ref 0)
   \<and> map_option fst (unwrap 2 (Ref 0) [] frozen_later_store) = Some (Ref 1)"
    by (simp add: frozen_later_store_def model_defs)
  moreover have "\<not> frozen (heap frozen_cycle_state 1)"
    by (simp add: frozen_cycle_state_def model_defs)
  moreover have "\<forall>n. unwrap n (Ref 1) [] frozen_cycle_state = None"
    using unwrap_never_returns_on_frozen_cycle by blast
  ultimately show ?thesis by simp
qed

theorem unwrap_fidelity_witness:
  "\<not> frozen (heap counter_state 0) \<and> lookup_proxy (heap counter_state 0) = None
   \<and> (\<exists>p s1. wrap (Ref 0) counter_state = (Inr (Prx p), s1)
          \<and> unwrap (Suc 0) (Prx p) [] s1 = Some (Ref 0, [], s1))
   \<and> frozen_ranked frozen_child_state (\<lambda>a. 0) 1 \<and> val_ok frozen_child_state (Ref 1)
   \<and> unwrapped frozen_child_state (Ref 1) = Ref 1
   \<and> (\<exists>vis' t'. unwrap (Suc (next_addr frozen_child_state * Suc 1 + 1)) (Ref 1) [] frozen_child_state
                    = Some (Ref 1, vis', t')
          \<and> frozen_ranked t' (\<lambda>a. 0) 1
          \<and> (\<exists>vis'' t''. unwrap (Suc (next_addr t' * Suc 1 + 1)) (Ref 1) [] t' = Some (Ref 1, vis'', t'')))
   \<and> frozen_ranked counter_state (\<lambda>a. 0) 1 \<and> val_ok counter_state (Ref 0)
   \<and> settled counter_state \<and> settled_val counter_state (Ref 0)
   \<and> (\<exists>vis'. unwrap (Suc (next_addr counter_state * Suc 1 + 1)) (Ref 0) [] counter_state
                    = Some (Ref 0, vis', counter_state))
   \<and> (\<exists>vis' u'. unwrap 2 (Ref 0) [] frozen_child_state = Some (Ref 2, vis', u'))"
proof -
  have a: "\<not> frozen (heap counter_state 0)" and b: "lookup_proxy (heap counter_state 0) = None"
    by (simp_all add: model_defs)
  have w1: "frozen_ranked frozen_child_state (\<lambda>a. 0) 1"
    by (auto simp: frozen_ranked_def slots_def val_ok_def frozen_child_state_def model_defs less_Suc_eq)
  have ok1: "val_ok frozen_child_state (Ref 1)"
    by (simp add: val_ok_def frozen_child_state_def model_defs)
  have u1: "unwrapped frozen_child_state (Ref 1) = Ref 1"
    by (simp add: unwrapped_def frozen_child_state_def model_defs)
  have w2: "frozen_ranked counter_state (\<lambda>a. 0) 1"
    by (auto simp: frozen_ranked_def slots_def val_ok_def model_defs)
  have ok2: "val_ok counter_state (Ref 0)" by (simp add: val_ok_def model_defs)
  have st: "settled counter_state"
    by (auto simp: settled_def settled_val_def slots_def model_defs split: if_splits)
  have sv: "settled_val counter_state (Ref 0)" by (simp add: settled_val_def model_defs)
  have "\<exists>v vis' u'. unwrap 2 (Ref 0) [] frozen_child_state = Some (v, vis', u')"
    by (simp add: frozen_child_state_def model_defs)
  then obtain v vis' u' where u: "unwrap 2 (Ref 0) [] frozen_child_state = Some (v, vis', u')"
    by blast
  have u2: "unwrapped frozen_child_state (Ref 0) = Ref 2"
    by (simp add: unwrapped_def frozen_child_state_def model_defs)
  have nv1: "\<forall>p. Ref 1 = Prx p \<longrightarrow> \<not> frozen (heap frozen_child_state (proxies frozen_child_state p))"
    by simp
  have lp: "\<forall>p. lookup_proxy (heap counter_state 0) = Some p \<longrightarrow> proxies counter_state p = 0"
    by (simp add: b)
  note T1 = unwrap_fidelity [where s = counter_state and r = 0 and t = frozen_child_state
      and rk = "\<lambda>a. 0" and M = 1 and x = "Ref 1" and n = 2 and z = "Ref 0" and u = frozen_child_state
      and y = v and vis = vis' and u' = u']
  from T1 a lp have p1: "\<exists>p s1. wrap (Ref 0) counter_state = (Inr (Prx p), s1)
             \<and> (\<forall>n vis. unwrap (Suc n) (Prx p) vis s1 = Some (Ref 0, vis, s1))"
    by blast
  from T1 w1 ok1 nv1 have "\<exists>vis' t'. unwrap (Suc (next_addr frozen_child_state * Suc 1 + 1)) (Ref 1) [] frozen_child_state
                    = Some (unwrapped frozen_child_state (Ref 1), vis', t')
          \<and> frozen_ranked t' (\<lambda>a. 0) 1
          \<and> (\<exists>vis'' t''. unwrap (Suc (next_addr t' * Suc 1 + 1)) (unwrapped frozen_child_state (Ref 1)) [] t'
                 = Some (unwrapped frozen_child_state (Ref 1), vis'', t''))"
    by blast
  then have p2: "\<exists>vis' t'. unwrap (Suc (next_addr frozen_child_state * Suc 1 + 1)) (Ref 1) [] frozen_child_state
                    = Some (Ref 1, vis', t')
          \<and> frozen_ranked t' (\<lambda>a. 0) 1
          \<and> (\<exists>vis'' t''. unwrap (Suc (next_addr t' * Suc 1 + 1)) (Ref 1) [] t' = Some (Ref 1, vis'', t''))"
    unfolding u1 .
  from T1 u have "v = unwrapped frozen_child_state (Ref 0)" by blast
  then have p3: "v = Ref 2" unfolding u2 .
  note T2 = unwrap_fidelity [where t = counter_state and rk = "\<lambda>a. 0" and M = 1 and x = "Ref 0"]
  from T2 w2 ok2 st sv
  have p4: "\<exists>vis'. unwrap (Suc (next_addr counter_state * Suc 1 + 1)) (Ref 0) [] counter_state
                    = Some (Ref 0, vis', counter_state)"
    by metis
  from p1 have p1': "\<exists>p s1. wrap (Ref 0) counter_state = (Inr (Prx p), s1)
          \<and> unwrap (Suc 0) (Prx p) [] s1 = Some (Ref 0, [], s1)"
    by blast
  from u p3 have p5: "\<exists>vis' u'. unwrap 2 (Ref 0) [] frozen_child_state = Some (Ref 2, vis', u')"
    by blast
  from a b p1' w1 ok1 u1 p2 w2 ok2 st sv p4 p5 show ?thesis by blast
qed

subsection \<open>Frozen inputs\<close>

text \<open>
  C8. The code at two failing inputs. \<open>createStore\<close> over the frozen object \<open>{a: 1}\<close>
  returns a view of a copy, at address 1, and the frozen object stays as it was; but the
  callback \<open>view.toString = 1\<close> of its mutator throws \<open>TypeError\<close>, because the registry
  of the copy inherits \<open>toString\<close> and the inherited function has no method \<open>$\<close>. And
  \<open>createStore\<close> over a frozen object that refers to itself does not return, whatever the
  fuel: \<open>unwrap\<close> copies a frozen object without recording it, and follows the property
  of the copy to the frozen object again.
\<close>

theorem store_of_frozen_input_throws_or_diverges:
  "frozen (heap frozen_counter_state 0)
   \<and> map_option fst (createStore 2 (Ref 0) frozen_counter_state) = Some (Inr (Prx 0))
   \<and> proxies (snd (the (createStore 2 (Ref 0) frozen_counter_state))) 0 = 1
   \<and> map_option fst frozen_counter_write = Some (Inl TypeError)
   \<and> props (heap (snd (the frozen_counter_write)) 0) = [(Name ''a'', Num 1)]
   \<and> frozen (heap frozen_cycle_state 0)
   \<and> createStore n (Ref 0) frozen_cycle_state = None"
proof -
  have "unwrap n (Ref 0) [] frozen_cycle_state = None"
    by (rule frozen_cycle_diverges) (simp_all add: frozen_cycle_state_def model_defs)
  then have "createStore n (Ref 0) frozen_cycle_state = None"
    by (simp add: createStore_def)
  moreover have "frozen (heap frozen_cycle_state 0)"
    by (simp add: frozen_cycle_state_def model_defs)
  moreover have "frozen (heap frozen_counter_state 0)
     \<and> map_option fst (createStore 2 (Ref 0) frozen_counter_state) = Some (Inr (Prx 0))
     \<and> proxies (snd (the (createStore 2 (Ref 0) frozen_counter_state))) 0 = 1
     \<and> map_option fst frozen_counter_write = Some (Inl TypeError)
     \<and> props (heap (snd (the frozen_counter_write)) 0) = [(Name ''a'', Num 1)]"
    by (simp add: frozen_counter_write_def frozen_counter_state_def model_defs setStore_def perform_def)
  ultimately show ?thesis by simp
qed

subsection \<open>Transparency of reads, and deletion of an absent key\<close>

text \<open>
  C9. The code at two failing inputs, both reached through the store alone. After a
  callback has assigned 5 to the property \<open>_\<close>, reading \<open>_\<close> through the view with no
  tracking context gives \<open>undefined\<close> while the raw node holds 5: the cell of the property
  \<open>_\<close> is the self cell \<open>nodes._\<close>, which the last line of \<open>setProperty\<close> overwrites. After
  a computation has read index 2 of the array store and a callback has set \<open>length\<close> to 1,
  reading index 2 through the view gives 3 while the raw array has nothing there: the cells
  of the removed indices are not fired.
\<close>

theorem view_read_differs_from_raw_read:
  "CurrentReaction underscore_store = None
   \<and> raw_get underscore_store 0 (Name ''_'') = Num 5
   \<and> fst (proxy_get 0 (Key (Name ''_'')) (Prx 0) underscore_store) = Inr Undefined
   \<and> CurrentReaction truncated_store = None
   \<and> raw_get truncated_store 0 (Idx 2) = Undefined
   \<and> fst (proxy_get 0 (Key (Idx 2)) (Prx 0) truncated_store) = Inr (Num 3)"
  by (simp add: underscore_store_def truncated_store_def model_defs setStore_def perform_def)

text \<open>
  C10. The code at a failing input: inside a transaction, deleting the key \<open>toString\<close>,
  which the raw node does not have (on the store of an object without prototype it is
  absent altogether), throws \<open>TypeError\<close> and neither creates nor fires a cell, because
  \<open>getDataNode\<close> returns the function that the registry inherits under that name.
\<close>

theorem delete_of_inherited_name_throws:
  "Writing bare_store
   \<and> raw_get bare_store 0 (Name ''toString'') = Undefined
   \<and> proxy_deleteProperty 0 (Key (Name ''toString'')) bare_store
        = (Inl TypeError, snd (proxy_deleteProperty 0 (Key (Name ''toString'')) bare_store))
   \<and> cells (snd (proxy_deleteProperty 0 (Key (Name ''toString'')) bare_store)) 0 (Name ''toString'') = None
   \<and> fired (snd (proxy_deleteProperty 0 (Key (Name ''toString'')) bare_store)) = []
   \<and> Writing (counter_store\<lparr>Writing := True\<rparr>)
   \<and> map_of (props (heap counter_store 0)) (Name ''toString'') = None
   \<and> fst (proxy_deleteProperty 0 (Key (Name ''toString'')) (counter_store\<lparr>Writing := True\<rparr>)) = Inl TypeError"
  by (simp add: bare_store_def model_defs in_target_def prod_eq_iff)

subsection \<open>The length of a sequence\<close>

text \<open>
  C7. When a call of \<open>setProperty\<close> on an array returns normally and has changed the
  length of the array, the \<open>length\<close> cell exists afterwards (it is created when absent) and
  is fired in addition to the cell of the written property: the log grows by the property,
  then \<open>length\<close>, then possibly the self cell. In particular, when \<open>pop\<close> on the view of a
  non-empty array returns normally inside a transaction (the \<open>length\<close> cell, if there is
  one, holding the current length), the array is one shorter, and both the cell of the
  last index and the \<open>length\<close> cell exist and have been fired.
\<close>

theorem length_change_fires_length:
  "(setProperty st p v d s = (Inr (), s') \<and> is_array s st
      \<and> alen (heap s' st) \<noteq> alen (heap s st)
    \<longrightarrow> cells s' st length_key \<noteq> None
        \<and> (\<exists>l. fired s' = fired s @ [(st, p), (st, length_key)] @ l))
   \<and> (Writing u \<and> is_array u (proxies u q) \<and> alen (heap u (proxies u q)) = Suc i
      \<and> (\<forall>c. cells u (proxies u q) length_key = Some c \<longrightarrow> payload c = Num (int (Suc i)))
      \<and> pop_view fuel q u = Some (Inr w, u')
    \<longrightarrow> alen (heap u' (proxies u q)) = i
        \<and> cells u' (proxies u q) (Idx i) \<noteq> None \<and> cells u' (proxies u q) length_key \<noteq> None
        \<and> (\<exists>l1 l2. fired u' = fired u @ (proxies u q, Idx i) # l1 @ (proxies u q, length_key) # l2))"
  using setProperty_length_change [of st p v d s s'] pop_fires_index_and_length [of u q i fuel w u']
  by blast

theorem length_change_fires_length_witness:
  "fst (setProperty 0 (Idx 3) (Num 4) False array_store) = Inr ()
   \<and> is_array array_store 0
   \<and> alen (heap (snd (setProperty 0 (Idx 3) (Num 4) False array_store)) 0) \<noteq> alen (heap array_store 0)
   \<and> cells (snd (setProperty 0 (Idx 3) (Num 4) False array_store)) 0 length_key \<noteq> None
   \<and> (\<exists>l. fired (snd (setProperty 0 (Idx 3) (Num 4) False array_store))
             = fired array_store @ [(0, Idx 3), (0, length_key)] @ l)
   \<and> Writing array_store \<and> proxies array_store 0 = 0 \<and> alen (heap array_store 0) = Suc 2
   \<and> cells array_store 0 length_key = None
   \<and> (\<exists>u'. pop_view 1 0 array_store = Some (Inr (Num 3), u')
         \<and> alen (heap u' 0) = 2 \<and> cells u' 0 (Idx 2) \<noteq> None \<and> cells u' 0 length_key \<noteq> None
         \<and> (\<exists>l1 l2. fired u' = fired array_store @ (0, Idx 2) # l1 @ (0, length_key) # l2))"
proof -
  let ?r = "setProperty 0 (Idx 3) (Num 4) False array_store"
  have ok: "fst ?r = Inr ()" by (simp add: model_defs)
  then have run: "?r = (Inr (), snd ?r)" by (simp add: prod_eq_iff)
  have arr: "is_array array_store 0" by (simp add: model_defs)
  have grows: "alen (heap (snd ?r) 0) \<noteq> alen (heap array_store 0)" by (simp add: model_defs)
  have w: "Writing array_store" and t: "proxies array_store 0 = 0"
    and len: "alen (heap array_store 0) = Suc 2" and nc: "cells array_store 0 length_key = None"
    by (simp_all add: model_defs)
  have "\<exists>u'. pop_view 1 0 array_store = Some (Inr (Num 3), u')"
    by (simp add: model_defs)
  then obtain u' where pop: "pop_view 1 0 array_store = Some (Inr (Num 3), u')" ..
  from length_change_fires_length
    [where st = 0 and p = "Idx 3" and v = "Num 4" and d = False and s = array_store and s' = "snd ?r"
       and u = array_store and q = 0 and i = 2 and fuel = 1 and w = "Num 3" and u' = u']
    run arr grows w t len nc pop
  have "cells (snd ?r) 0 length_key \<noteq> None
        \<and> (\<exists>l. fired (snd ?r) = fired array_store @ [(0, Idx 3), (0, length_key)] @ l)"
    and "alen (heap u' 0) = 2 \<and> cells u' 0 (Idx 2) \<noteq> None \<and> cells u' 0 length_key \<noteq> None
         \<and> (\<exists>l1 l2. fired u' = fired array_store @ (0, Idx 2) # l1 @ (0, length_key) # l2)"
    by simp_all
  with ok arr grows w t len nc pop show ?thesis by blast
qed

end
